theory Spec2Isabelle
  imports Complex_Main "HOL-Library.Log_Nat"
begin

section \<open>Python values shared by the modules\<close>

text \<open>
  A Python \<open>str\<close> is a sequence of Unicode code points and \<open>len\<close> counts code points, so a
  string is modelled as a list of code points. \<open>u\<close> turns an ASCII literal into such a list.
  The exceptions the modelled code can raise are values of \<open>py_error\<close>.
\<close>

type_synonym pystr = "nat list"

definition u :: "string \<Rightarrow> pystr" where
  "u s = map of_char s"

datatype py_error = TypeError | IndexError | ValueError | ZeroDivisionError | AttributeError

type_synonym rgb = "int \<times> int \<times> int"

text \<open>
  What \<open>pixel_to_ascii\<close> hands back for one pixel: a string (plain glyph, ANSI sequence or
  HTML span), or in image mode the tuple \<open>(char, (r, g, b), bg_color)\<close>.
\<close>

datatype cell = Str pystr | Tup pystr rgb "rgb option"

text \<open>
  A row built by \<open>image_to_ascii\<close>: a string in the text modes (\<open>ascii_row += result\<close>), a
  list of results in image mode (\<open>ascii_row.append(result)\<close>).
\<close>

datatype row = TextRow pystr | ListRow "cell list"

section \<open>Python floats\<close>

text \<open>
  A Python \<open>float\<close> (and a NumPy \<open>float64\<close>) is an IEEE 754 binary64 number. A finite
  float is modelled by the rational it denotes, and every arithmetic operation returns the
  exact result rounded to 53 significant bits, to nearest, ties to even. The exponent range
  is not bounded: infinities, NaN, subnormal numbers and the sign of zero are outside the
  model, which agrees with the machine as long as no intermediate result leaves the normal
  range (magnitudes from \<open>2 powi -1022\<close> up to \<open>2 powi 1024\<close>).
\<close>

text \<open>\<open>ilog2 x\<close> is \<open>\<lfloor>log\<^sub>2 x\<rfloor>\<close> for a positive rational.\<close>

definition ilog2 :: "rat \<Rightarrow> int" where
  "ilog2 x = (let (p, q) = quotient_of x; k = bitlen p - bitlen q in
              if 2 powi k \<le> x then k else k - 1)"

definition round_half_even :: "rat \<Rightarrow> int" where
  "round_half_even x =
     (let f = \<lfloor>x\<rfloor>; d = x - of_int f in
      if d < 1/2 then f else if 1/2 < d then f + 1 else if even f then f else f + 1)"

definition round_double :: "rat \<Rightarrow> rat" where
  "round_double x =
     (if x = 0 then 0
      else let e = ilog2 \<bar>x\<bar> - 52 in
           sgn x * of_int (round_half_even (\<bar>x\<bar> / 2 powi e)) * 2 powi e)"

text \<open>A decimal literal such as \<open>0.299\<close> denotes the double nearest to it.\<close>

definition lit :: "rat \<Rightarrow> rat" where
  "lit q = round_double q"

text \<open>An integer operand of a float operation is converted to a float first.\<close>

definition float_of_int :: "int \<Rightarrow> rat" where
  "float_of_int n = round_double (of_int n)"

definition fadd :: "rat \<Rightarrow> rat \<Rightarrow> rat" where
  "fadd a b = round_double (a + b)"

definition fsub :: "rat \<Rightarrow> rat \<Rightarrow> rat" where
  "fsub a b = round_double (a - b)"

definition fmul :: "rat \<Rightarrow> rat \<Rightarrow> rat" where
  "fmul a b = round_double (a * b)"

text \<open>Float division where the divisor is known not to be zero.\<close>

definition fdiv :: "rat \<Rightarrow> rat \<Rightarrow> rat" where
  "fdiv a b = round_double (a / b)"

text \<open>Python's \<open>/\<close> on numbers: a zero divisor raises.\<close>

definition py_truediv :: "rat \<Rightarrow> rat \<Rightarrow> py_error + rat" where
  "py_truediv a b = (if b = 0 then Inl ZeroDivisionError else Inr (fdiv a b))"

text \<open>\<open>int(x)\<close> on a float truncates toward zero.\<close>

definition py_int :: "rat \<Rightarrow> int" where
  "py_int x = (if 0 \<le> x then \<lfloor>x\<rfloor> else \<lceil>x\<rceil>)"

text \<open>
  The integer nearest to \<open>n / d\<close> for a positive \<open>d\<close>, ties to even: \<open>round_half_even\<close>
  on a fraction, in integer arithmetic.
\<close>

definition round_div :: "int \<Rightarrow> int \<Rightarrow> int" where
  "round_div n d =
     (let f = n div d; r = n mod d in
      if 2 * r < d then f else if d < 2 * r then f + 1 else if even f then f else f + 1)"

section \<open>core/color\_handler.py\<close>

text \<open>
  The fields of \<open>ColorHandler\<close> that the methods read and write. The logger calls only
  report; they are left out, as they change neither the fields nor the values returned.
\<close>

record color_handler =
  output_mode :: pystr
  active_scheme :: pystr

text \<open>\<open>ColorHandler.__init__\<close> with its default argument.\<close>

definition init_color_handler :: color_handler where
  "init_color_handler = \<lparr>output_mode = u ''terminal'', active_scheme = u ''full_rgb''\<rparr>"

text \<open>
  \<open>str.lower\<close> on the ASCII letters. Outside ASCII Python's case mapping is left out:
  no code point beyond ASCII lower-cases to a string of the letters the mode tables use.
\<close>

definition lower :: "pystr \<Rightarrow> pystr" where
  "lower s = map (\<lambda>c. if 65 \<le> c \<and> c \<le> 90 then c + 32 else c) s"

definition format_to_mode :: "(pystr \<times> pystr) list" where
  "format_to_mode =
     [(u ''png'', u ''image''), (u ''jpg'', u ''image''), (u ''jpeg'', u ''image''),
      (u ''bmp'', u ''image''), (u ''gif'', u ''image''), (u ''txt'', u ''terminal''),
      (u ''text'', u ''terminal''), (u ''html'', u ''html''), (u ''htm'', u ''html'')]"

definition valid_modes :: "pystr list" where
  "valid_modes = [u ''terminal'', u ''html'', u ''image'']"

text \<open>\<open>set_output_mode\<close>: the value returned and the handler afterwards.\<close>

definition set_output_mode :: "color_handler \<Rightarrow> pystr \<Rightarrow> bool \<times> color_handler" where
  "set_output_mode self mode =
     (let mode = (case map_of format_to_mode (lower mode) of
                    Some actual_mode \<Rightarrow> actual_mode
                  | None \<Rightarrow> mode)
      in if lower mode \<in> set valid_modes
         then (True, self\<lparr>output_mode := lower mode\<rparr>)
         else (False, self))"

text \<open>The keys of the \<open>color_schemes\<close> dictionary.\<close>

definition color_scheme_names :: "pystr list" where
  "color_scheme_names = [u ''full_rgb'', u ''pastel'', u ''neon'', u ''grayscale'']"

definition set_color_scheme :: "color_handler \<Rightarrow> pystr \<Rightarrow> bool \<times> color_handler" where
  "set_color_scheme self scheme_name =
     (if scheme_name \<in> set color_scheme_names
      then (True, self\<lparr>active_scheme := scheme_name\<rparr>)
      else (False, self))"

definition pastelize :: "int \<Rightarrow> int \<Rightarrow> int \<Rightarrow> rgb" where
  "pastelize r g b =
     (py_int (fadd (fmul (of_int r) (lit (7/10))) (fmul 255 (lit (3/10)))),
      py_int (fadd (fmul (of_int g) (lit (7/10))) (fmul 255 (lit (3/10)))),
      py_int (fadd (fmul (of_int b) (lit (7/10))) (fmul 255 (lit (3/10)))))"

definition neonize :: "int \<Rightarrow> int \<Rightarrow> int \<Rightarrow> rgb" where
  "neonize r g b =
     (let factor = lit (3/2);
          max_val = max (max r g) b
      in if max_val = 0 then (0, 0, 0)
         else let scaling = min (fdiv 255 (of_int max_val)) factor
              in (min (py_int (fmul (of_int r) scaling)) 255,
                  min (py_int (fmul (of_int g) scaling)) 255,
                  min (py_int (fmul (of_int b) scaling)) 255))"

text \<open>
  \<open>_to_grayscale\<close>: \<open>gray = int(0.299 * r + 0.587 * g + 0.114 * b)\<close>, the sum taken
  from left to right in double precision.
\<close>

definition to_grayscale :: "int \<Rightarrow> int \<Rightarrow> int \<Rightarrow> rgb" where
  "to_grayscale r g b =
     (let gray = py_int (fadd (fadd (fmul (lit (299/1000)) (of_int r))
                                    (fmul (lit (587/1000)) (of_int g)))
                              (fmul (lit (114/1000)) (of_int b)))
      in (gray, gray, gray))"

text \<open>\<open>self.color_schemes[name](r, g, b)\<close>; an unknown key raises \<open>KeyError\<close>.\<close>

definition color_schemes :: "pystr \<Rightarrow> (int \<Rightarrow> int \<Rightarrow> int \<Rightarrow> rgb) option" where
  "color_schemes name =
     (if name = u ''full_rgb'' then Some (\<lambda>r g b. (r, g, b))
      else if name = u ''pastel'' then Some pastelize
      else if name = u ''neon'' then Some neonize
      else if name = u ''grayscale'' then Some to_grayscale
      else None)"

text \<open>Decimal formatting of an integer inside an f-string.\<close>

fun digits :: "nat \<Rightarrow> pystr" where
  "digits n = (if n < 10 then [48 + n] else digits (n div 10) @ [48 + n mod 10])"

definition str_of_int :: "int \<Rightarrow> pystr" where
  "str_of_int i = (if i < 0 then 45 # digits (nat (- i)) else digits (nat i))"

text \<open>
  \<open>apply_color\<close>. Any exception inside (here: the scheme lookup) is caught and the
  plain character returned.
\<close>

definition apply_color :: "color_handler \<Rightarrow> pystr \<Rightarrow> rgb \<Rightarrow> rgb option \<Rightarrow> cell" where
  "apply_color self char rgb bg_color =
     (case color_schemes (active_scheme self) of
        None \<Rightarrow> Str char
      | Some scheme \<Rightarrow>
          (case rgb of (r0, g0, b0) \<Rightarrow>
           case scheme r0 g0 b0 of (r, g, b) \<Rightarrow>
             if output_mode self = u ''terminal'' then
               (let fg_code = [27] @ u ''[38;2;'' @ str_of_int r @ u '';'' @ str_of_int g @
                              u '';'' @ str_of_int b @ u ''m'';
                    bg_code = (case bg_color of
                                 None \<Rightarrow> []
                               | Some (br, bg, bb) \<Rightarrow>
                                   [27] @ u ''[48;2;'' @ str_of_int br @ u '';'' @ str_of_int bg @
                                   u '';'' @ str_of_int bb @ u ''m'');
                    reset = [27] @ u ''[0m''
                in Str (fg_code @ bg_code @ char @ reset))
             else if output_mode self = u ''html'' then
               (let bg_style = (case bg_color of
                                  None \<Rightarrow> []
                                | Some (br, bg, bb) \<Rightarrow>
                                    u ''background-color:rgb('' @ str_of_int br @ u '','' @
                                    str_of_int bg @ u '','' @ str_of_int bb @ u '');'')
                in Str (u ''<span style='' @ [34] @ u ''color:rgb('' @ str_of_int r @ u '','' @ str_of_int g @
                        u '','' @ str_of_int b @ u '');'' @ bg_style @ [34] @ u ''>'' @ char @
                        u ''</span>''))
             else if output_mode self = u ''image'' then Tup char (r, g, b) bg_color
             else Str char))"

section \<open>core/ascii\_converter.py\<close>

text \<open>
  The named ramps. The glyphs outside ASCII (block and box-drawing characters) are given
  by their code points.
\<close>

definition char_sets :: "(pystr \<times> pystr) list" where
  "char_sets =
     [(u ''standard'', u ''@%#*+=-:. ''),
      (u ''bright'', u '' .:-=+*#%@''),
      (u ''detailed'',
         u ''$@B%8&WM#*oahkbdpqwmZO0QLCJUYXzcvunxrjft/'' @ [92] @ u ''|()1{}[]?-_+~<>i!lI;:,'' @ [34] @ u ''^`'' @
         [39] @ u ''. ''),
      (u ''simple'', u ''#@%*+=-:. ''),
      (u ''blocks'', [0x2588, 0x2593, 0x2592, 0x2591, 32]),
      (u ''minimal'', u ''@:. ''),
      (u ''manga'',
         [0x2588, 0x2593, 0x2592, 0x2591] @ u ''@%#*/'' @ [92] @ u ''()[]{}=_-+~<>!;:,. ''),
      (u ''diagonal'',
         [92] @ u ''|/'' @
         [0x2500, 0x2502, 0x250C, 0x2510, 0x2514, 0x2518, 0x253C, 0x2584, 0x2580,
          0x2588, 0x2593, 0x2592, 0x2591, 32]),
      (u ''contrast'', u ''@%#*+=-:. '')]"

record ascii_converter =
  char_set :: pystr
  char_set_name :: pystr
  color_handler :: color_handler
  directional_mode :: bool

text \<open>\<open>AsciiConverter.__init__\<close>; a falsy \<open>char_set\<close> argument selects the standard ramp.\<close>

definition init_ascii_converter :: "pystr option \<Rightarrow> ascii_converter" where
  "init_ascii_converter cs =
     \<lparr>char_set = (case cs of
                    None \<Rightarrow> u ''@%#*+=-:. ''
                  | Some c \<Rightarrow> if c = [] then u ''@%#*+=-:. '' else c),
      char_set_name = u ''standard'',
      color_handler = init_color_handler,
      directional_mode = False\<rparr>"

definition set_directional_mode :: "ascii_converter \<Rightarrow> bool \<Rightarrow> bool \<times> ascii_converter" where
  "set_directional_mode self enabled = (True, self\<lparr>directional_mode := enabled\<rparr>)"

text \<open>
  \<open>set_char_set\<close>: the ramp returned and the converter afterwards. A truthy
  \<open>custom_chars\<close> wins over the name; \<open>set_name\<close> may be \<open>None\<close>, which is no key.
\<close>

definition set_char_set ::
  "ascii_converter \<Rightarrow> pystr option \<Rightarrow> pystr option \<Rightarrow> pystr \<times> ascii_converter" where
  "set_char_set self set_name custom_chars =
     (let self' =
        (if custom_chars \<noteq> None \<and> custom_chars \<noteq> Some []
         then self\<lparr>char_set := the custom_chars, char_set_name := u ''custom''\<rparr>
         else case set_name of
                None \<Rightarrow> self
              | Some name \<Rightarrow>
                  (case map_of char_sets name of
                     Some chars \<Rightarrow> self\<lparr>char_set := chars, char_set_name := name\<rparr>
                   | None \<Rightarrow> self))
      in (char_set self', self'))"

text \<open>
  The pixel handed to \<open>pixel_to_ascii\<close> is a sequence of channel values:
  \<open>r, g, b = pixel[:3]\<close> when it has three or more, \<open>r = g = b = pixel[0]\<close> otherwise,
  which raises \<open>IndexError\<close> on an empty one.
\<close>

fun pixel_rgb :: "int list \<Rightarrow> py_error + rgb" where
  "pixel_rgb (r # g # b # rest) = Inr (r, g, b)"
| "pixel_rgb (v # rest) = Inr (v, v, v)"
| "pixel_rgb [] = Inl IndexError"

text \<open>
  Lines 66 to 78 of \<open>pixel_to_ascii\<close>: the index into the ramp. \<open>n\<close> is
  \<open>len(self.char_set)\<close>.
\<close>

definition char_index :: "nat \<Rightarrow> rgb \<Rightarrow> bool \<Rightarrow> rat \<Rightarrow> int" where
  "char_index n rgb invert brightness_boost =
     (case rgb of (r, g, b) \<Rightarrow>
      let intensity = max (max r g) b;
          adjusted_intensity = min 255 (fmul (of_int intensity) brightness_boost);
          char_index =
            (if invert
             then py_int (fmul (fdiv (fsub 255 adjusted_intensity) 255) (float_of_int (int n - 1)))
             else py_int (fmul (fdiv adjusted_intensity 255) (float_of_int (int n - 1))))
      in max 0 (min char_index (int n - 1)))"

text \<open>
  A NumPy image buffer: two-dimensional (one value per pixel) or three-dimensional (a list
  of channel values per pixel), as nested lists, all rows of one length.
\<close>

datatype image = Gray "int list list" | Color "int list list list"

fun shape2 :: "'a list list \<Rightarrow> nat \<times> nat" where
  "shape2 [] = (0, 0)"
| "shape2 (r # rs) = (Suc (length rs), length r)"

text \<open>\<open>image_array.shape[:2]\<close>.\<close>

fun image_shape :: "image \<Rightarrow> nat \<times> nat" where
  "image_shape (Gray rows) = shape2 rows"
| "image_shape (Color rows) = shape2 rows"

definition rectangular :: "'a list list \<Rightarrow> bool" where
  "rectangular rows = list_all (\<lambda>r. length r = snd (shape2 rows)) rows"

fun image_ok :: "image \<Rightarrow> bool" where
  "image_ok (Gray rows) = rectangular rows"
| "image_ok (Color rows) = rectangular rows"

text \<open>
  The slice \<open>xs[start:stop]\<close>: a negative bound counts from the end, and both are clipped
  to the sequence.
\<close>

definition py_slice :: "'a list \<Rightarrow> int \<Rightarrow> int \<Rightarrow> 'a list" where
  "py_slice xs start stop =
     (let n = int (length xs);
          a = (if start < 0 then max 0 (start + n) else min start n);
          b = (if stop < 0 then max 0 (stop + n) else min stop n)
      in take (nat (b - a)) (drop (nat a) xs))"

definition slice2 :: "'a list list \<Rightarrow> int \<Rightarrow> int \<Rightarrow> int \<Rightarrow> int \<Rightarrow> 'a list list" where
  "slice2 rows y0 y1 x0 x1 = map (\<lambda>r. py_slice r x0 x1) (py_slice rows y0 y1)"

text \<open>
  \<open>np.mean(window, axis=2).astype(np.uint8)\<close> for one pixel: the mean is taken in double
  precision, the cast truncates and keeps the low eight bits.
\<close>

definition mean_uint8 :: "int list \<Rightarrow> int" where
  "mean_uint8 chans = py_int (fdiv (of_int (sum_list chans)) (of_nat (length chans))) mod 256"

text \<open>The window of \<open>detect_direction\<close> as \<open>window_gray\<close>.\<close>

fun gray_window :: "image \<Rightarrow> int \<Rightarrow> int \<Rightarrow> int \<Rightarrow> int \<Rightarrow> int list list" where
  "gray_window (Gray rows) y0 y1 x0 x1 = slice2 rows y0 y1 x0 x1"
| "gray_window (Color rows) y0 y1 x0 x1 = map (map mean_uint8) (slice2 rows y0 y1 x0 x1)"

definition h_kernel :: "int list list" where
  "h_kernel = [[-1, 0, 1], [-2, 0, 2], [-1, 0, 1]]"

definition v_kernel :: "int list list" where
  "v_kernel = [[-1, -2, -1], [0, 0, 0], [1, 2, 1]]"

text \<open>
  \<open>np.sum(window_gray * kernel)\<close> for a window with at least three rows and columns:
  against the 3 by 3 kernel only a 3 by 3 window broadcasts, any other raises
  \<open>ValueError\<close>.
\<close>

definition mul_sum :: "int list list \<Rightarrow> int list list \<Rightarrow> py_error + int" where
  "mul_sum w k =
     (if shape2 w = (3, 3)
      then Inr (sum_list (map2 (\<lambda>rw rk. sum_list (map2 (*) rw rk)) w k))
      else Inl ValueError)"

text \<open>
  \<open>np.arctan2\<close> on finite arguments. The angle is a real number here: the double the
  machine computes differs from it by rounding only.
\<close>

definition arctan2 :: "real \<Rightarrow> real \<Rightarrow> real" where
  "arctan2 y x =
     (if 0 < x then arctan (y / x)
      else if x < 0 then (if 0 \<le> y then arctan (y / x) + pi else arctan (y / x) - pi)
      else if 0 < y then pi / 2
      else if y < 0 then - pi / 2
      else 0)"

text \<open>The chain of comparisons that maps the angle to a direction.\<close>

definition direction_of_angle :: "real \<Rightarrow> pystr" where
  "direction_of_angle angle =
     (if 22.5 \<le> angle \<and> angle < 67.5 then u ''ne''
      else if 67.5 \<le> angle \<and> angle < 112.5 then u ''n''
      else if 112.5 \<le> angle \<and> angle < 157.5 then u ''nw''
      else if (157.5 \<le> angle \<and> angle \<le> 180) \<or> (-180 \<le> angle \<and> angle < -157.5) then u ''w''
      else if -157.5 \<le> angle \<and> angle < -112.5 then u ''sw''
      else if -112.5 \<le> angle \<and> angle < -67.5 then u ''s''
      else if -67.5 \<le> angle \<and> angle < -22.5 then u ''se''
      else u ''e'')"

text \<open>
  \<open>detect_direction\<close>. The result is \<open>None\<close> for an absent buffer and a direction name
  otherwise.
\<close>

definition detect_direction ::
  "image option \<Rightarrow> int \<Rightarrow> int \<Rightarrow> int \<Rightarrow> py_error + pystr option" where
  "detect_direction image_array x y window_size =
     (case image_array of
        None \<Rightarrow> Inr None
      | Some img \<Rightarrow>
          (case image_shape img of (h, w) \<Rightarrow>
           let x_min = max 0 (x - window_size div 2);
               x_max = min (int w - 1) (x + window_size div 2);
               y_min = max 0 (y - window_size div 2);
               y_max = min (int h - 1) (y + window_size div 2);
               window_gray = gray_window img y_min (y_max + 1) x_min (x_max + 1)
           in if fst (shape2 window_gray) < 3 \<or> snd (shape2 window_gray) < 3
              then Inr (Some (u ''none''))
              else
                (case mul_sum window_gray h_kernel of
                   Inl e \<Rightarrow> Inl e
                 | Inr sx \<Rightarrow>
                     (case mul_sum window_gray v_kernel of
                        Inl e \<Rightarrow> Inl e
                      | Inr sy \<Rightarrow>
                          let gx = \<bar>sx\<bar>; gy = \<bar>sy\<bar>
                          in if gx < 20 \<and> gy < 20 then Inr (Some (u ''none''))
                             else let angle = arctan2 (of_int gy) (of_int gx) * 180 / pi
                                  in Inr (Some (direction_of_angle angle))))))"

text \<open>The glyph override of the line-art ramps.\<close>

definition directional_char :: "pystr option \<Rightarrow> pystr \<Rightarrow> pystr" where
  "directional_char direction char =
     (if direction = Some (u ''ne'') then u ''/''
      else if direction = Some (u ''nw'') then [92]
      else if direction = Some (u ''n'') \<or> direction = Some (u ''s'') then u ''|''
      else if direction = Some (u ''e'') \<or> direction = Some (u ''w'') then u ''-''
      else if direction = Some (u ''se'') then [92]
      else if direction = Some (u ''sw'') then u ''/''
      else char)"

text \<open>
  \<open>pixel_to_ascii\<close>. Every exception raised inside is caught by the outer handler, which
  returns a single space; one raised by \<open>detect_direction\<close> is caught by the inner
  handler, which keeps the glyph chosen by intensity.
\<close>

definition pixel_to_ascii ::
  "ascii_converter \<Rightarrow> int list \<Rightarrow> int \<Rightarrow> int \<Rightarrow> image option \<Rightarrow> bool \<Rightarrow> rgb option \<Rightarrow>
   bool \<Rightarrow> rat \<Rightarrow> cell" where
  "pixel_to_ascii self pixel x y image_array colored bg_color invert brightness_boost =
     (case pixel_rgb pixel of
        Inl e \<Rightarrow> Str (u '' '')
      | Inr rgb \<Rightarrow>
          let i = char_index (length (char_set self)) rgb invert brightness_boost
          in if char_set self = [] then Str (u '' '')
             else
               let char = [char_set self ! nat i];
                   char =
                     (if directional_mode self \<and> image_array \<noteq> None
                      then (case detect_direction image_array x y 3 of
                              Inl e \<Rightarrow> char
                            | Inr direction \<Rightarrow>
                                if char_set_name self = u ''manga'' \<or>
                                   char_set_name self = u ''diagonal''
                                then directional_char direction char
                                else char)
                      else char)
               in if colored then apply_color (color_handler self) char rgb bg_color
                  else Str char)"

section \<open>core/image\_processor.py\<close>

text \<open>
  \<open>calculate_ascii_dimensions\<close>. The arguments are numbers; a zero output dimension is
  falsy and gives \<open>(None, None)\<close>. The last step before the return formats \<open>cols/rows\<close>
  for the debug message, which raises when \<open>rows\<close> is zero.
\<close>

definition calculate_ascii_dimensions ::
  "rat \<Rightarrow> rat \<Rightarrow> rat \<Rightarrow> bool \<Rightarrow> py_error + (int option \<times> int option)" where
  "calculate_ascii_dimensions output_width output_height font_size char_aspect_correction =
     (if output_width = 0 \<or> output_height = 0 then Inr (None, None)
      else
        let char_width = fmul font_size (lit (6/10));
            char_height = font_size
        in if char_width = 0 then Inl ZeroDivisionError
           else if char_height = 0 then Inl ZeroDivisionError
           else
             let raw_cols = py_int (fdiv output_width char_width);
                 raw_rows = py_int (fdiv output_height char_height);
                 target_aspect_ratio = fdiv output_width output_height
             in if fmul (float_of_int raw_rows) char_height = 0 then Inl ZeroDivisionError
                else
                  let grid_aspect_ratio =
                        fdiv (fmul (float_of_int raw_cols) char_width)
                             (fmul (float_of_int raw_rows) char_height);
                      (cols, rows) =
                        (if char_aspect_correction
                         then if target_aspect_ratio > grid_aspect_ratio
                              then (raw_cols,
                                    py_int (fmul (fdiv (float_of_int raw_cols) target_aspect_ratio)
                                                 (fdiv char_width char_height)))
                              else (py_int (fmul (fmul (float_of_int raw_rows) target_aspect_ratio)
                                                 (fdiv char_height char_width)),
                                    raw_rows)
                         else (raw_cols, raw_rows))
                  in if rows = 0 then Inl ZeroDivisionError
                     else Inr (Some cols, Some rows))"

section \<open>core/output\_formatter.py\<close>

text \<open>\<open>sep.join(xs)\<close> on a list of strings.\<close>

fun join :: "pystr \<Rightarrow> pystr list \<Rightarrow> pystr" where
  "join sep [] = []"
| "join sep [x] = x"
| "join sep (x # y # ys) = x @ sep @ join sep (y # ys)"

fun is_str :: "row \<Rightarrow> bool" where
  "is_str (TextRow s) = True"
| "is_str (ListRow cs) = False"

fun str_of :: "row \<Rightarrow> pystr" where
  "str_of (TextRow s) = s"
| "str_of (ListRow cs) = []"

text \<open>
  \<open>str.join(ascii_rows)\<close> as the formatter calls it: \<open>None\<close> is not iterable and an item
  that is not a string is rejected, both with \<open>TypeError\<close>.
\<close>

definition str_join :: "pystr \<Rightarrow> row list option \<Rightarrow> py_error + pystr" where
  "str_join sep ascii_rows =
     (case ascii_rows of
        None \<Rightarrow> Inl TypeError
      | Some rows \<Rightarrow>
          if list_all is_str rows then Inr (join sep (map str_of rows)) else Inl TypeError)"

text \<open>\<open>OutputFormatter.to_string\<close>: \<open>return "\n".join(ascii_rows)\<close>.\<close>

definition to_string :: "row list option \<Rightarrow> py_error + pystr" where
  "to_string ascii_rows = str_join [10] ascii_rows"

text \<open>The default style sheet of \<open>to_html\<close>, used when \<open>css\<close> is falsy.\<close>

definition default_css :: pystr where
  "default_css =
     [10] @ u ''            body { background-color: #000; margin: 0; padding: 10px; }'' @
     [10] @ u ''            pre { '' @
     [10] @ u ''                font-family: '' @ [39] @ u ''Courier New'' @ [39] @ u '', monospace; '' @
     [10] @ u ''                font-size: 10px;'' @
     [10] @ u ''                line-height: 1.0;'' @
     [10] @ u ''                letter-spacing: 0;'' @
     [10] @ u ''                display: inline-block;'' @
     [10] @ u ''            }'' @
     [10] @ u ''            ''"

definition html_head :: "pystr \<Rightarrow> pystr \<Rightarrow> pystr" where
  "html_head title css =
     u ''<!DOCTYPE html>'' @
     [10] @ u ''        <html>'' @
     [10] @ u ''        <head>'' @
     [10] @ u ''            <title>'' @ title @ u ''</title>'' @
     [10] @ u ''            <style>'' @ css @ u ''</style>'' @
     [10] @ u ''        </head>'' @
     [10] @ u ''        <body>'' @
     [10] @ u ''            <pre>''"

definition html_tail :: pystr where
  "html_tail =
     u ''</pre>'' @
     [10] @ u ''        </body>'' @
     [10] @ u ''        </html>''"

text \<open>
  \<open>OutputFormatter.to_html\<close>: the f-string with \<open>title\<close>, \<open>css\<close> and
  \<open>''.join(ascii_rows)\<close> spliced in.
\<close>

definition to_html :: "row list option \<Rightarrow> pystr \<Rightarrow> pystr \<Rightarrow> py_error + pystr" where
  "to_html ascii_rows title css =
     (let css = (if css = [] then default_css else css) in
      case str_join [] ascii_rows of
        Inl e \<Rightarrow> Inl e
      | Inr body \<Rightarrow> Inr (html_head title css @ body @ html_tail))"

section \<open>Notions used in the statements about \<open>detect_direction\<close>\<close>

text \<open>
  The window of \<open>detect_direction\<close> on its own: the neighbourhood clipped to the buffer,
  as \<open>window_gray\<close>.
\<close>

definition clipped_window :: "image \<Rightarrow> int \<Rightarrow> int \<Rightarrow> int \<Rightarrow> int list list" where
  "clipped_window img x y window_size =
     (case image_shape img of (h, w) \<Rightarrow>
        gray_window img
          (max 0 (y - window_size div 2)) (min (int h - 1) (y + window_size div 2) + 1)
          (max 0 (x - window_size div 2)) (min (int w - 1) (x + window_size div 2) + 1))"

text \<open>The direction names of claim C6.\<close>

definition reachable_directions :: "pystr set" where
  "reachable_directions = {u ''none'', u ''e'', u ''ne'', u ''n''}"

section \<open>Notions used in the statements about the grid dimensions\<close>

text \<open>
  The aspect ratio \<open>(cols * cell_width) / (rows * cell_height)\<close> of a rendered grid, for
  the cell that \<open>calculate_ascii_dimensions\<close> assumes: \<open>char_width = font_size * 0.6\<close>,
  \<open>char_height = font_size\<close>. An exact rational, not a float.
\<close>

definition rendered_ratio :: "int \<Rightarrow> int \<Rightarrow> rat \<Rightarrow> rat" where
  "rendered_ratio cols rows font_size =
     (of_int cols * fmul font_size (lit (6/10))) / (of_int rows * font_size)"

text \<open>
  Relative rounding error: a rounded result is its exact value times a factor between
  \<open>rel_q\<close> and \<open>1 / rel_q\<close>, and \<open>close k a b\<close> says that \<open>a\<close> and \<open>b\<close> differ by at most
  \<open>k\<close> such factors.
\<close>

definition rel_q :: rat where
  "rel_q = 1 - 1 / 2 ^ 53"

definition close :: "nat \<Rightarrow> rat \<Rightarrow> rat \<Rightarrow> bool" where
  "close k a b = (b * rel_q ^ k \<le> a \<and> a * rel_q ^ k \<le> b)"

section \<open>The glyph index as the specification words it\<close>

text \<open>A pixel whose channels are 8-bit values.\<close>

definition valid_pixel :: "rgb \<Rightarrow> bool" where
  "valid_pixel p = (case p of (r, g, b) \<Rightarrow>
     0 \<le> r \<and> r \<le> 255 \<and> 0 \<le> g \<and> g \<le> 255 \<and> 0 \<le> b \<and> b \<le> 255)"

definition intensity :: "rgb \<Rightarrow> int" where
  "intensity p = (case p of (r, g, b) \<Rightarrow> max (max r g) b)"

definition clamp :: "'a::linorder \<Rightarrow> 'a \<Rightarrow> 'a \<Rightarrow> 'a" where
  "clamp x lo hi = max lo (min hi x)"

text \<open>
  The specification's formula, not the code: \<open>adjusted = clamp(intensity * brightness_boost,
  0, 255)\<close> and \<open>index = invert ? rnd((255 - adjusted) / 255 * (N - 1)) : rnd(adjusted / 255 *
  (N - 1))\<close>, clamped to \<open>[0, N - 1]\<close>, evaluated in double precision. The rounding rule
  \<open>rnd\<close> is a parameter: the specification says \<open>round\<close>.
\<close>

definition spec_glyph_index :: "(rat \<Rightarrow> int) \<Rightarrow> nat \<Rightarrow> rgb \<Rightarrow> bool \<Rightarrow> rat \<Rightarrow> int" where
  "spec_glyph_index rnd n p invert brightness_boost =
     (let adjusted = clamp (fmul (of_int (intensity p)) brightness_boost) 0 255;
          index = (if invert
                   then rnd (fmul (fdiv (fsub 255 adjusted) 255) (float_of_int (int n - 1)))
                   else rnd (fmul (fdiv adjusted 255) (float_of_int (int n - 1))))
      in clamp index 0 (int n - 1))"

text \<open>
  The value whose integer part is the index, as a function of the adjusted intensity
  (used in the proofs).
\<close>

definition ramp_pos :: "nat \<Rightarrow> bool \<Rightarrow> rat \<Rightarrow> rat" where
  "ramp_pos n invert a =
     (if invert then fmul (fdiv (fsub 255 a) 255) (float_of_int (int n - 1))
      else fmul (fdiv a 255) (float_of_int (int n - 1)))"

section \<open>Properties of the float operations\<close>

lemma bitlen_powi_bounds:
  assumes "0 < p"
  shows "(2::rat) powi (bitlen p - 1) \<le> of_int p" "of_int p < (2::rat) powi (bitlen p)"
proof -
  have b: "2 ^ nat (bitlen p - 1) \<le> p" "p < 2 ^ nat (bitlen p)"
    using bitlen_bounds [OF assms] by simp_all
  have ge1: "1 \<le> bitlen p" using assms by (simp add: bitlen_alt_def)
  have "(2::rat) powi (bitlen p - 1) = of_int (2 ^ nat (bitlen p - 1))"
    using ge1 by (simp add: power_int_def)
  also have "\<dots> \<le> of_int p" using b(1) by (simp only: of_int_le_iff)
  finally show "(2::rat) powi (bitlen p - 1) \<le> of_int p" .
  have "of_int p < (of_int (2 ^ nat (bitlen p)) :: rat)" using b(2) by (simp only: of_int_less_iff)
  also have "\<dots> = 2 powi (bitlen p)" using ge1 by (simp add: power_int_def)
  finally show "of_int p < (2::rat) powi (bitlen p)" .
qed

lemma ilog2_bounds:
  assumes "0 < x"
  shows "2 powi (ilog2 x) \<le> x \<and> x < 2 powi (ilog2 x + 1)"
proof -
  obtain p q where pq: "quotient_of x = (p, q)" by (cases "quotient_of x")
  have q: "0 < q" using pq quotient_of_denom_pos by blast
  have x: "x = of_int p / of_int q" using pq quotient_of_div by blast
  have p: "0 < p" using assms q x by (simp add: zero_less_divide_iff)
  define k where "k = bitlen p - bitlen q"
  have lo: "2 powi (k - 1) \<le> x"
  proof -
    have "(2::rat) powi (k - 1) * of_int q \<le> 2 powi (k - 1) * 2 powi (bitlen q)"
      using bitlen_powi_bounds(2) [OF q] by (simp add: mult_left_mono)
    also have "\<dots> = 2 powi (bitlen p - 1)"
      by (simp add: k_def flip: power_int_add)
    also have "\<dots> \<le> of_int p" by (rule bitlen_powi_bounds(1) [OF p])
    finally show ?thesis using q by (simp add: x pos_le_divide_eq)
  qed
  have hi: "x < 2 powi (k + 1)"
  proof -
    have "of_int p < (2::rat) powi (bitlen p)" by (rule bitlen_powi_bounds(2) [OF p])
    also have "\<dots> = 2 powi (k + 1) * 2 powi (bitlen q - 1)"
      by (simp add: k_def flip: power_int_add)
    also have "\<dots> \<le> 2 powi (k + 1) * of_int q"
      using bitlen_powi_bounds(1) [OF q] by (simp add: mult_left_mono)
    finally show ?thesis using q by (simp add: x pos_divide_less_eq)
  qed
  have il: "ilog2 x = (if 2 powi k \<le> x then k else k - 1)"
    by (simp add: ilog2_def pq k_def Let_def)
  show ?thesis
  proof (cases "2 powi k \<le> x")
    case True
    then show ?thesis using hi il by simp
  next
    case False
    then show ?thesis using lo il by simp
  qed
qed

lemma ilog2_mono:
  assumes "0 < x" "x \<le> y"
  shows "ilog2 x \<le> ilog2 y"
proof (rule ccontr)
  assume "\<not> ilog2 x \<le> ilog2 y"
  then have "ilog2 y + 1 \<le> ilog2 x" by simp
  then have "(2::rat) powi (ilog2 y + 1) \<le> 2 powi (ilog2 x)"
    by (simp add: power_int_increasing)
  also have "\<dots> \<le> x" using ilog2_bounds [OF assms(1)] by simp
  also have "\<dots> \<le> y" by (rule assms(2))
  also have "\<dots> < 2 powi (ilog2 y + 1)" using ilog2_bounds [of y] assms by simp
  finally show False by simp
qed

lemma round_half_even_of_int [simp]: "round_half_even (of_int n) = n"
  by (simp add: round_half_even_def)

lemma round_half_even_floor: "\<lfloor>x\<rfloor> \<le> round_half_even x \<and> round_half_even x \<le> \<lfloor>x\<rfloor> + 1"
  by (simp add: round_half_even_def Let_def)

lemma round_half_even_mono:
  assumes "x \<le> y"
  shows "round_half_even x \<le> round_half_even y"
proof (cases "\<lfloor>x\<rfloor> = \<lfloor>y\<rfloor>")
  case True
  then show ?thesis using assms by (auto simp: round_half_even_def Let_def)
next
  case False
  then have "\<lfloor>x\<rfloor> + 1 \<le> \<lfloor>y\<rfloor>" using floor_mono [OF assms] by simp
  then show ?thesis using round_half_even_floor [of x] round_half_even_floor [of y] by linarith
qed

lemma two_powi_shift: "(2::rat) powi k = 2 ^ n * 2 powi (k - int n)"
  using power_int_add [of "2::rat" "int n" "k - int n"] by simp

lemma round_double_pos_bounds:
  assumes "0 < x"
  shows "2 powi (ilog2 x) \<le> round_double x \<and> round_double x \<le> 2 powi (ilog2 x + 1)"
proof -
  define e where "e = ilog2 x - 52"
  define r where "r = round_half_even (x / 2 powi e)"
  have pe: "(0::rat) < 2 powi e" by simp
  have rd: "round_double x = of_int r * 2 powi e"
    using assms by (simp add: round_double_def e_def r_def Let_def)
  have s52: "(2::rat) powi (ilog2 x) = 2 ^ 52 * 2 powi e"
    using two_powi_shift [of "ilog2 x" 52] by (simp add: e_def)
  have s53: "(2::rat) powi (ilog2 x + 1) = 2 ^ 53 * 2 powi e"
    using two_powi_shift [of "ilog2 x + 1" 53] by (simp add: e_def)
  have lo: "of_int (2 ^ 52) \<le> x / 2 powi e"
    using ilog2_bounds [OF assms] pe by (simp add: pos_le_divide_eq s52)
  have hi: "x / 2 powi e \<le> of_int (2 ^ 53)"
    using ilog2_bounds [OF assms] pe by (simp add: pos_divide_le_eq s53)
  have "round_half_even (of_int (2 ^ 52)) \<le> r"
    unfolding r_def by (rule round_half_even_mono [OF lo])
  then have "2 ^ 52 \<le> r" by (simp only: round_half_even_of_int)
  then have a: "(2::rat) ^ 52 \<le> of_int r" by (metis of_int_le_iff of_int_numeral of_int_power)
  have "r \<le> round_half_even (of_int (2 ^ 53))"
    unfolding r_def by (rule round_half_even_mono [OF hi])
  then have "r \<le> 2 ^ 53" by (simp only: round_half_even_of_int)
  then have b: "of_int r \<le> (2::rat) ^ 53" by (metis of_int_le_iff of_int_numeral of_int_power)
  have 1: "2 powi (ilog2 x) \<le> round_double x"
    unfolding rd s52 using a pe by (intro mult_right_mono) simp_all
  have 2: "round_double x \<le> 2 powi (ilog2 x + 1)"
    unfolding rd s53 using b pe by (intro mult_right_mono) simp_all
  show ?thesis using 1 2 by simp
qed

lemma round_double_zero [simp]: "round_double 0 = 0"
  by (simp add: round_double_def)

lemma round_double_minus: "round_double (- x) = - round_double x"
  by (simp add: round_double_def Let_def)

lemma round_double_pos: "0 < x \<Longrightarrow> 0 < round_double x"
proof -
  assume x: "0 < x"
  have "(0::rat) < 2 powi (ilog2 x)" by simp
  then show ?thesis using round_double_pos_bounds [OF x] by linarith
qed

lemma round_double_mono_pos:
  assumes "0 < x" "x \<le> y"
  shows "round_double x \<le> round_double y"
proof (cases "ilog2 x = ilog2 y")
  case True
  define e where "e = ilog2 y - 52"
  have y: "0 < y" using assms by simp
  have "x / 2 powi e \<le> y / 2 powi e" using assms by (simp add: divide_right_mono)
  then have "round_half_even (x / 2 powi e) \<le> round_half_even (y / 2 powi e)"
    by (rule round_half_even_mono)
  then have "(of_int (round_half_even (x / 2 powi e)) :: rat) * 2 powi e
      \<le> of_int (round_half_even (y / 2 powi e)) * 2 powi e"
    by (simp add: mult_right_mono)
  then show ?thesis using assms y True by (simp add: round_double_def Let_def e_def)
next
  case False
  have y: "0 < y" using assms by simp
  have "ilog2 x + 1 \<le> ilog2 y" using False ilog2_mono [OF assms] by simp
  then have "(2::rat) powi (ilog2 x + 1) \<le> 2 powi (ilog2 y)"
    by (simp add: power_int_increasing)
  then show ?thesis
    using round_double_pos_bounds [OF assms(1)] round_double_pos_bounds [OF y] by linarith
qed

lemma round_double_mono:
  assumes "x \<le> y"
  shows "round_double x \<le> round_double y"
proof -
  consider "0 < x" | "x \<le> 0" "0 \<le> y" | "y < 0" by linarith
  then show ?thesis
  proof cases
    case 1
    then show ?thesis using assms by (rule round_double_mono_pos)
  next
    case 2
    have "round_double x \<le> 0"
      using 2(1) round_double_pos [of "- x"] by (cases "x = 0") (simp_all add: round_double_minus)
    moreover have "0 \<le> round_double y"
      using 2(2) round_double_pos [of y] by (cases "y = 0") simp_all
    ultimately show ?thesis by simp
  next
    case 3
    then have "round_double (- y) \<le> round_double (- x)"
      using assms by (intro round_double_mono_pos) simp_all
    then show ?thesis by (simp add: round_double_minus)
  qed
qed

lemma round_double_of_int:
  assumes "\<bar>n\<bar> < 2 ^ 53"
  shows "round_double (of_int n) = of_int n"
proof (cases "n = 0")
  case True
  then show ?thesis by simp
next
  case False
  define m where "m = \<bar>n\<bar>"
  have m: "0 < m" "m < 2 ^ 53" using False assms by (simp_all add: m_def)
  define e where "e = ilog2 (of_int m) - 52"
  have mpos: "(0::rat) < of_int m" using m by simp
  have "\<not> 53 \<le> ilog2 (of_int m)"
  proof
    assume "53 \<le> ilog2 (of_int m)"
    then have "(2::rat) powi 53 \<le> 2 powi (ilog2 (of_int m))"
      by (intro power_int_increasing) simp_all
    also have "\<dots> \<le> of_int m" using ilog2_bounds [OF mpos] by simp
    finally have "(of_int (2 ^ 53) :: rat) \<le> of_int m" by simp
    then have "2 ^ 53 \<le> m" by (simp only: of_int_le_iff)
    then show False using m(2) by simp
  qed
  then have e: "e \<le> 0" by (simp add: e_def)
  define j where "j = nat (- e)"
  have pe: "(2::rat) powi e = inverse (2 ^ j)"
    using e by (simp add: power_int_def j_def power_one_over inverse_eq_divide)
  have "(of_int m :: rat) / 2 powi e = of_int (m * 2 ^ j)"
    by (simp add: pe divide_inverse)
  then have "round_half_even (of_int m / 2 powi e) = m * 2 ^ j"
    by (simp only: round_half_even_of_int)
  then have "round_double (of_int n) = sgn (of_int n) * of_int (m * 2 ^ j) * 2 powi e"
    using False by (simp add: round_double_def Let_def e_def m_def)
  also have "\<dots> = sgn (of_int n) * of_int m"
    by (simp add: pe divide_inverse)
  also have "\<dots> = of_int n"
    by (simp add: m_def sgn_if)
  finally show ?thesis .
qed

lemma ilog2_unique:
  assumes "2 powi k \<le> x" "x < 2 powi (k + 1)"
  shows "ilog2 x = k"
proof -
  have "(0::rat) < 2 powi k" by simp
  then have x: "0 < x" using assms(1) by linarith
  note b = ilog2_bounds [OF x]
  have "\<not> ilog2 x < k"
  proof
    assume "ilog2 x < k"
    then have "(2::rat) powi (ilog2 x + 1) \<le> 2 powi k" by (intro power_int_increasing) simp_all
    then show False using b assms(1) by linarith
  qed
  moreover have "\<not> k < ilog2 x"
  proof
    assume "k < ilog2 x"
    then have "(2::rat) powi (k + 1) \<le> 2 powi (ilog2 x)" by (intro power_int_increasing) simp_all
    then show False using b assms(2) by linarith
  qed
  ultimately show ?thesis by simp
qed

lemma round_half_even_frac:
  assumes "0 < d"
  shows "round_half_even (of_int n / of_int d) = round_div n d"
proof -
  have f: "\<lfloor>(of_int n :: rat) / of_int d\<rfloor> = n div d" by (simp add: floor_divide_of_int_eq)
  have "(of_int n :: rat) = of_int (n div d) * of_int d + of_int (n mod d)"
    by (metis div_mult_mod_eq of_int_add of_int_mult)
  then have fr: "(of_int n :: rat) / of_int d - of_int (n div d) = of_int (n mod d) / of_int d"
    using assms by (simp add: field_simps)
  have c1: "(of_int (n mod d) / of_int d < (1/2 :: rat)) = (2 * (n mod d) < d)"
  proof -
    have "(of_int (n mod d) / of_int d < (1/2 :: rat)) = ((of_int (2 * (n mod d)) :: rat) < of_int d)"
      using assms by (simp add: field_simps)
    then show ?thesis by (simp only: of_int_less_iff)
  qed
  have c2: "((1/2 :: rat) < of_int (n mod d) / of_int d) = (d < 2 * (n mod d))"
  proof -
    have "((1/2 :: rat) < of_int (n mod d) / of_int d) = ((of_int d :: rat) < of_int (2 * (n mod d)))"
      using assms by (simp add: field_simps)
    then show ?thesis by (simp only: of_int_less_iff)
  qed
  show ?thesis
    unfolding round_half_even_def round_div_def Let_def f fr c1 c2 ..
qed

lemma round_double_eval:
  fixes a b :: int and j :: nat
  assumes "0 < b" "2 ^ 52 * b \<le> a * 2 ^ j" "a * 2 ^ j < 2 ^ 53 * b"
  shows "round_double (of_int a / of_int b) = of_int (round_div (a * 2 ^ j) b) / 2 ^ j"
proof -
  define x :: rat where "x = of_int a / of_int b"
  define k :: int where "k = 52 - int j"
  have bpos: "(0::rat) < of_int b" using assms(1) by simp
  have pj: "(2::rat) powi (k - 52) = inverse (2 ^ j)"
    by (simp add: k_def power_int_minus)
  have xs: "x / 2 powi (k - 52) = of_int (a * 2 ^ j) / of_int b"
    by (simp add: pj x_def divide_inverse)
  have "(of_int (2 ^ 52 * b) :: rat) \<le> of_int (a * 2 ^ j)" using assms(2) by (simp only: of_int_le_iff)
  then have lo': "(2::rat) ^ 52 \<le> x * 2 ^ j" using bpos by (simp add: x_def pos_le_divide_eq)
  have "(of_int (a * 2 ^ j) :: rat) < of_int (2 ^ 53 * b)" using assms(3) by (simp only: of_int_less_iff)
  then have hi': "x * 2 ^ j < (2::rat) ^ 53" using bpos by (simp add: x_def pos_divide_less_eq)
  have k52: "(2::rat) powi k = 2 ^ 52 * inverse (2 ^ j)"
    using two_powi_shift [of k 52] pj by simp
  have k53: "(2::rat) powi (k + 1) = 2 ^ 53 * inverse (2 ^ j)"
    using two_powi_shift [of "k + 1" 53] pj by simp
  have lo: "2 powi k \<le> x" unfolding k52 using lo' by (simp add: field_simps)
  have hi: "x < 2 powi (k + 1)" unfolding k53 using hi' by (simp add: field_simps)
  have xpos: "0 < x" using lo by (smt (verit) zero_less_power_int zero_less_numeral order_less_le_trans)
  have il: "ilog2 x = k" by (rule ilog2_unique [OF lo hi])
  have "round_double x = of_int (round_half_even (x / 2 powi (k - 52))) * 2 powi (k - 52)"
    using xpos by (simp add: round_double_def Let_def il)
  also have "round_half_even (x / 2 powi (k - 52)) = round_div (a * 2 ^ j) b"
    unfolding xs by (rule round_half_even_frac [OF assms(1)])
  also have "of_int (round_div (a * 2 ^ j) b) * (2::rat) powi (k - 52)
      = of_int (round_div (a * 2 ^ j) b) / 2 ^ j"
    unfolding pj by (simp add: divide_inverse)
  finally show ?thesis unfolding x_def .
qed

lemma round_double_step:
  fixes a b :: int and j :: nat
  assumes "x = of_int a / of_int b" "0 < b" "2 ^ 52 * b \<le> a * 2 ^ j" "a * 2 ^ j < 2 ^ 53 * b"
    and "z = of_int (round_div (a * 2 ^ j) b) / 2 ^ j"
  shows "round_double x = z"
  unfolding assms(1,5) by (rule round_double_eval [OF assms(2-4)])

lemma py_int_step:
  fixes a b :: int
  assumes "x = of_int a / of_int b" "0 < b" "0 \<le> a" "t = a div b"
  shows "py_int x = t"
proof -
  have "0 \<le> x" using assms(1-3) by simp
  then show ?thesis unfolding py_int_def assms(1,4) by (simp add: floor_divide_of_int_eq)
qed

lemma round_double_nonneg: "0 \<le> x \<Longrightarrow> 0 \<le> round_double x"
  using round_double_mono [of 0 x] by simp

lemma round_double_nonpos: "x \<le> 0 \<Longrightarrow> round_double x \<le> 0"
  using round_double_mono [of x 0] by simp

lemma round_double_numeral_small [simp]:
  "round_double 255 = 255" "round_double 1 = 1"
  using round_double_of_int [of 255] round_double_of_int [of 1] by simp_all

lemma py_int_mono:
  assumes "x \<le> y"
  shows "py_int x \<le> py_int y"
proof (cases "0 \<le> x")
  case True
  then show ?thesis using assms by (simp add: py_int_def floor_mono)
next
  case False
  show ?thesis
  proof (cases "0 \<le> y")
    case True
    have "\<lceil>x\<rceil> \<le> 0" using False by (simp add: ceiling_le_zero)
    moreover have "0 \<le> \<lfloor>y\<rfloor>" using True by simp
    moreover have "py_int x = \<lceil>x\<rceil>" "py_int y = \<lfloor>y\<rfloor>"
      using False True by (simp_all add: py_int_def)
    ultimately show ?thesis by linarith
  next
    case False
    then show ?thesis using assms \<open>\<not> 0 \<le> x\<close> by (simp add: py_int_def ceiling_mono)
  qed
qed

lemma clamp_index_mono: "a \<le> b \<Longrightarrow> max (0::int) (min a c) \<le> max 0 (min b c)"
  by linarith

lemma py_int_of_int [simp]: "py_int (of_int k) = k"
  by (simp add: py_int_def)

lemma py_int_nonneg: "0 \<le> x \<Longrightarrow> py_int x = \<lfloor>x\<rfloor>"
  by (simp add: py_int_def)

lemma float_of_int_exact: "\<bar>k\<bar> < 2 ^ 53 \<Longrightarrow> float_of_int k = of_int k"
  by (simp add: float_of_int_def round_double_of_int)

lemma fmul_mono: "0 \<le> c \<Longrightarrow> a \<le> b \<Longrightarrow> fmul a c \<le> fmul b c"
  unfolding fmul_def by (intro round_double_mono mult_right_mono)

lemma fmul_mono_left: "0 \<le> c \<Longrightarrow> a \<le> b \<Longrightarrow> fmul c a \<le> fmul c b"
  unfolding fmul_def by (intro round_double_mono mult_left_mono)

lemma fdiv_mono: "0 \<le> c \<Longrightarrow> a \<le> b \<Longrightarrow> fdiv a c \<le> fdiv b c"
  unfolding fdiv_def by (intro round_double_mono divide_right_mono)

lemma fsub_antimono: "a \<le> b \<Longrightarrow> fsub c b \<le> fsub c a"
  unfolding fsub_def by (intro round_double_mono) simp

lemma char_index_eq:
  "char_index n p invert boost =
     max 0 (min (py_int (ramp_pos n invert (min 255 (fmul (of_int (intensity p)) boost)))) (int n - 1))"
proof (cases p)
  case (fields r g b)
  show ?thesis
    unfolding fields char_index_def ramp_pos_def intensity_def Let_def prod.case
    by (cases invert) (simp_all only: if_True if_False)
qed

lemma spec_glyph_index_eq:
  "spec_glyph_index rnd n p invert boost =
     max 0 (min (int n - 1)
                (rnd (ramp_pos n invert (max 0 (min 255 (fmul (of_int (intensity p)) boost))))))"
  unfolding spec_glyph_index_def ramp_pos_def clamp_def Let_def
  by (cases invert) (simp_all only: if_True if_False)

lemma float_of_int_nonneg: "0 \<le> k \<Longrightarrow> 0 \<le> float_of_int k"
  unfolding float_of_int_def by (rule round_double_nonneg) simp

lemma ramp_pos_mono:
  assumes "0 < n" "a \<le> b"
  shows "ramp_pos n False a \<le> ramp_pos n False b" "ramp_pos n True b \<le> ramp_pos n True a"
proof -
  have k: "0 \<le> float_of_int (int n - 1)" using assms(1) by (intro float_of_int_nonneg) simp
  show "ramp_pos n False a \<le> ramp_pos n False b"
    unfolding ramp_pos_def using k assms(2) by (simp add: fmul_mono fdiv_mono)
  show "ramp_pos n True b \<le> ramp_pos n True a"
    unfolding ramp_pos_def using k assms(2) by (simp add: fmul_mono fdiv_mono fsub_antimono)
qed

lemma ramp_pos_nonpos:
  assumes "0 < n" "a \<le> 0"
  shows "ramp_pos n False a \<le> 0"
proof -
  have k: "0 \<le> float_of_int (int n - 1)" using assms(1) by (intro float_of_int_nonneg) simp
  have "fdiv a 255 \<le> 0" unfolding fdiv_def using assms(2) by (intro round_double_nonpos) (simp add: divide_le_0_iff)
  then have "fdiv a 255 * float_of_int (int n - 1) \<le> 0" using k by (simp add: mult_le_0_iff)
  then show ?thesis unfolding ramp_pos_def fmul_def by (simp add: round_double_nonpos)
qed

lemma ramp_pos_zero: "ramp_pos n False 0 = 0"
  by (simp add: ramp_pos_def fdiv_def fmul_def)

lemma ramp_pos_nonneg:
  assumes "0 < n" "0 \<le> a" "a \<le> 255"
  shows "0 \<le> ramp_pos n invert a"
proof -
  have k: "0 \<le> float_of_int (int n - 1)" using assms(1) by (intro float_of_int_nonneg) simp
  have 1: "0 \<le> fdiv a 255" unfolding fdiv_def using assms(2) by (intro round_double_nonneg) simp
  have "0 \<le> fsub 255 a" unfolding fsub_def using assms(3) by (intro round_double_nonneg) simp
  then have 2: "0 \<le> fdiv (fsub 255 a) 255" unfolding fdiv_def by (intro round_double_nonneg) simp
  show ?thesis unfolding ramp_pos_def fmul_def using 1 2 k by (auto intro!: round_double_nonneg)
qed

lemma ramp_pos_inverted_top:
  assumes "0 < n" "n \<le> 2 ^ 53" "a \<le> 0"
  shows "of_int (int n - 1) \<le> ramp_pos n True a"
proof -
  have ex: "float_of_int (int n - 1) = of_int (int n - 1)"
    using assms(1,2) by (intro float_of_int_exact) simp
  have k: "(0::rat) \<le> of_int (int n - 1)" using assms(1) by simp
  have "round_double 255 \<le> fsub 255 a" unfolding fsub_def using assms(3) by (intro round_double_mono) simp
  then have "255 \<le> fsub 255 a" by simp
  then have "round_double 1 \<le> fdiv (fsub 255 a) 255" unfolding fdiv_def by (intro round_double_mono) simp
  then have "1 \<le> fdiv (fsub 255 a) 255" by simp
  then have "1 * of_int (int n - 1) \<le> fdiv (fsub 255 a) 255 * (of_int (int n - 1) :: rat)"
    using k by (intro mult_right_mono)
  then have "round_double (of_int (int n - 1)) \<le> fmul (fdiv (fsub 255 a) 255) (of_int (int n - 1))"
    unfolding fmul_def by (intro round_double_mono) simp
  then show ?thesis using ex by (simp add: ramp_pos_def float_of_int_def)
qed

lemma ramp_pos_inverted_zero:
  assumes "0 < n" "n \<le> 2 ^ 53"
  shows "ramp_pos n True 0 = of_int (int n - 1)"
proof -
  have ex: "float_of_int (int n - 1) = of_int (int n - 1)"
    using assms(1,2) by (intro float_of_int_exact) simp
  then show ?thesis by (simp add: ramp_pos_def fsub_def fdiv_def fmul_def float_of_int_def)
qed

lemma char_index_negative_product:
  assumes "0 < n" "n \<le> 2 ^ 53" "fmul (of_int (intensity p)) boost \<le> 0"
  shows "char_index n p invert boost = (if invert then int n - 1 else 0)"
proof (cases invert)
  case True
  have "min 255 (fmul (of_int (intensity p)) boost) \<le> 0" using assms(3) by simp
  then have "of_int (int n - 1) \<le> ramp_pos n True (min 255 (fmul (of_int (intensity p)) boost))"
    by (rule ramp_pos_inverted_top [OF assms(1,2)])
  then have "py_int (of_int (int n - 1)) \<le> py_int (ramp_pos n True (min 255 (fmul (of_int (intensity p)) boost)))"
    by (rule py_int_mono)
  then have "int n - 1 \<le> py_int (ramp_pos n True (min 255 (fmul (of_int (intensity p)) boost)))"
    by (simp only: py_int_of_int)
  then show ?thesis using True assms(1) unfolding char_index_eq by simp
next
  case False
  have "min 255 (fmul (of_int (intensity p)) boost) \<le> 0" using assms(3) by simp
  then have "ramp_pos n False (min 255 (fmul (of_int (intensity p)) boost)) \<le> 0"
    by (rule ramp_pos_nonpos [OF assms(1)])
  then have "py_int (ramp_pos n False (min 255 (fmul (of_int (intensity p)) boost))) \<le> py_int (of_int 0)"
    by (intro py_int_mono) simp
  then have "py_int (ramp_pos n False (min 255 (fmul (of_int (intensity p)) boost))) \<le> 0"
    by (simp only: py_int_of_int)
  then show ?thesis using False assms(1) unfolding char_index_eq by simp
qed

lemma round_step:
  fixes a b :: int
  assumes "x = of_int a / of_int b" "0 < b" "t = (2 * a + b) div (2 * b)"
  shows "round (x::rat) = t"
proof -
  have "x + 1 / 2 = of_int (2 * a + b) / of_int (2 * b)"
    using assms(2) by (simp add: assms(1) field_simps)
  then show ?thesis unfolding round_def assms(3) by (simp only: floor_divide_of_int_eq)
qed

subsection \<open>Relative error of the rounded operations\<close>

lemma rel_q_pos: "0 < rel_q" "rel_q \<le> 1" "0 \<le> rel_q ^ k" "rel_q ^ k \<le> 1"
proof -
  show 1: "0 < rel_q" and 2: "rel_q \<le> 1" by (simp_all add: rel_q_def)
  show "0 \<le> rel_q ^ k" using 1 by simp
  show "rel_q ^ k \<le> 1" using 1 2 by (simp add: power_le_one)
qed

lemma round_half_even_error: "\<bar>of_int (round_half_even x) - x\<bar> \<le> (1/2 :: rat)"
proof -
  define d where "d = x - of_int \<lfloor>x\<rfloor>"
  have d: "0 \<le> d" "d < 1" unfolding d_def by linarith+
  have x: "x = of_int \<lfloor>x\<rfloor> + d" by (simp add: d_def)
  consider "d < 1/2" | "1/2 < d" | "d = 1/2" by linarith
  then show ?thesis
  proof cases
    case 1
    then have "round_half_even x = \<lfloor>x\<rfloor>" by (simp add: round_half_even_def d_def Let_def)
    then show ?thesis using 1 d x by simp
  next
    case 2
    then have "round_half_even x = \<lfloor>x\<rfloor> + 1" by (simp add: round_half_even_def d_def Let_def)
    then show ?thesis using 2 d x by simp
  next
    case 3
    then have "round_half_even x = \<lfloor>x\<rfloor> \<or> round_half_even x = \<lfloor>x\<rfloor> + 1"
      by (simp add: round_half_even_def d_def Let_def)
    then show ?thesis using 3 x by auto
  qed
qed

lemma round_double_rel_error:
  assumes "0 < x"
  shows "\<bar>round_double x - x\<bar> \<le> x / 2 ^ 53"
proof -
  define e where "e = ilog2 x - 52"
  define m where "m = x / 2 powi e"
  have pe: "(0::rat) < 2 powi e" by simp
  have rd: "round_double x = of_int (round_half_even m) * 2 powi e"
    using assms by (simp add: round_double_def e_def m_def Let_def)
  have mp: "m * 2 powi e = x" by (simp add: m_def)
  have "round_double x - x = (of_int (round_half_even m) - m) * 2 powi e"
    unfolding rd left_diff_distrib mp ..
  then have "\<bar>round_double x - x\<bar> = \<bar>of_int (round_half_even m) - m\<bar> * 2 powi e"
    using pe by (simp add: abs_mult)
  also have "\<dots> \<le> (1/2) * 2 powi e"
    using round_half_even_error [of m] pe by (intro mult_right_mono) simp_all
  also have "(2::rat) powi e = 2 powi (ilog2 x) / 2 ^ 52"
    using two_powi_shift [of "ilog2 x" 52] by (simp add: e_def)
  also have "(1/2) * (2 powi (ilog2 x) / 2 ^ 52) = 2 powi (ilog2 x) / (2 ^ 53 :: rat)" by simp
  also have "\<dots> \<le> x / 2 ^ 53"
    using ilog2_bounds [OF assms] by (intro divide_right_mono) simp_all
  finally show ?thesis .
qed

lemma close_round_double:
  assumes "0 \<le> x"
  shows "close 1 (round_double x) x"
proof (cases "x = 0")
  case True
  then show ?thesis by (simp add: close_def)
next
  case False
  then have x: "0 < x" using assms by simp
  have e: "\<bar>round_double x - x\<bar> \<le> x / 2 ^ 53" by (rule round_double_rel_error [OF x])
  have lo: "x * rel_q \<le> round_double x"
  proof -
    have "x - x / 2 ^ 53 \<le> round_double x" using e by linarith
    then show ?thesis by (simp add: rel_q_def algebra_simps)
  qed
  have "round_double x \<le> x + x / 2 ^ 53" using e by linarith
  then have "round_double x * rel_q \<le> (x + x / 2 ^ 53) * rel_q"
    using rel_q_pos(1) by (intro mult_right_mono) simp_all
  also have "\<dots> = x - x / 2 ^ 53 / 2 ^ 53" by (simp add: rel_q_def algebra_simps)
  also have "\<dots> \<le> x" using x by simp
  finally show ?thesis using lo by (simp add: close_def)
qed

lemma close_refl: "close 0 a a"
  by (simp add: close_def)

lemma close_trans:
  assumes "close k a b" "close m b c"
  shows "close (k + m) a c"
proof -
  have "c * rel_q ^ (k + m) = (c * rel_q ^ m) * rel_q ^ k" by (simp add: power_add)
  also have "\<dots> \<le> b * rel_q ^ k"
    using assms(2) rel_q_pos(3) by (intro mult_right_mono) (simp_all add: close_def)
  also have "\<dots> \<le> a" using assms(1) by (simp add: close_def)
  finally have 1: "c * rel_q ^ (k + m) \<le> a" .
  have "a * rel_q ^ (k + m) = (a * rel_q ^ k) * rel_q ^ m" by (simp add: power_add)
  also have "\<dots> \<le> b * rel_q ^ m"
    using assms(1) rel_q_pos(3) by (intro mult_right_mono) (simp_all add: close_def)
  also have "\<dots> \<le> c" using assms(2) by (simp add: close_def)
  finally show ?thesis using 1 by (simp add: close_def)
qed

lemma close_mult:
  assumes "close k a b" "close m c d" "0 \<le> a" "0 \<le> b" "0 \<le> c" "0 \<le> d"
  shows "close (k + m) (a * c) (b * d)"
proof -
  have "b * d * rel_q ^ (k + m) = (b * rel_q ^ k) * (d * rel_q ^ m)" by (simp add: power_add)
  also have "\<dots> \<le> a * c"
    using assms rel_q_pos(3) by (intro mult_mono) (simp_all add: close_def)
  finally have 1: "b * d * rel_q ^ (k + m) \<le> a * c" .
  have "a * c * rel_q ^ (k + m) = (a * rel_q ^ k) * (c * rel_q ^ m)" by (simp add: power_add)
  also have "\<dots> \<le> b * d"
    using assms rel_q_pos(3) by (intro mult_mono) (simp_all add: close_def)
  finally show ?thesis using 1 by (simp add: close_def)
qed

lemma close_inverse:
  assumes "close m c d" "0 < c" "0 < d"
  shows "close m (inverse c) (inverse d)"
proof -
  have q: "0 < rel_q ^ m" using rel_q_pos(1) by simp
  have "c * rel_q ^ m \<le> d" "d * rel_q ^ m \<le> c" using assms(1) by (simp_all add: close_def)
  then have "inverse d * rel_q ^ m \<le> inverse c" "inverse c * rel_q ^ m \<le> inverse d"
    using assms(2,3) by (simp_all add: field_simps)
  then show ?thesis by (simp add: close_def)
qed

lemma close_divide:
  assumes "close k a b" "close m c d" "0 \<le> a" "0 \<le> b" "0 < c" "0 < d"
  shows "close (k + m) (a / c) (b / d)"
  using close_mult [OF assms(1) close_inverse [OF assms(2,5,6)] assms(3,4)] assms(5,6)
  by (simp add: divide_inverse)

lemma close_fmul:
  assumes "close k a a'" "close m b b'" "0 \<le> a" "0 \<le> a'" "0 \<le> b" "0 \<le> b'"
  shows "close (Suc (k + m)) (fmul a b) (a' * b')"
proof -
  have "close 1 (fmul a b) (a * b)" unfolding fmul_def using assms(3,5) by (intro close_round_double) simp
  from close_trans [OF this close_mult [OF assms]] show ?thesis by simp
qed

lemma close_fdiv:
  assumes "close k a a'" "close m b b'" "0 \<le> a" "0 \<le> a'" "0 < b" "0 < b'"
  shows "close (Suc (k + m)) (fdiv a b) (a' / b')"
proof -
  have "close 1 (fdiv a b) (a / b)" unfolding fdiv_def using assms(3,5) by (intro close_round_double) simp
  from close_trans [OF this close_divide [OF assms]] show ?thesis by simp
qed

lemma close_float_of_int: "0 \<le> n \<Longrightarrow> close 1 (float_of_int n) (of_int n)"
  unfolding float_of_int_def by (rule close_round_double) simp

lemma close_weaken:
  assumes "close k a b" "k \<le> m" "0 \<le> a" "0 \<le> b"
  shows "close m a b"
proof -
  have "rel_q ^ m \<le> rel_q ^ k" using assms(2) rel_q_pos(1,2) by (intro power_decreasing) simp_all
  then have "b * rel_q ^ m \<le> b * rel_q ^ k" "a * rel_q ^ m \<le> a * rel_q ^ k"
    using assms(3,4) by (simp_all add: mult_left_mono)
  then show ?thesis using assms(1) unfolding close_def by linarith
qed

lemma rel_q_pow5: "1 - 1 / 2 ^ 50 \<le> rel_q ^ 5"
  by (simp add: rel_q_def power_def)


lemma fmul_nonneg: "0 \<le> a \<Longrightarrow> 0 \<le> b \<Longrightarrow> 0 \<le> fmul a b"
  unfolding fmul_def by (intro round_double_nonneg mult_nonneg_nonneg)

lemma fdiv_nonneg: "0 \<le> a \<Longrightarrow> 0 \<le> b \<Longrightarrow> 0 \<le> fdiv a b"
  unfolding fdiv_def by (intro round_double_nonneg divide_nonneg_nonneg)

lemma py_int_floor_bounds:
  assumes "0 \<le> v"
  shows "0 \<le> py_int v" "of_int (py_int v) \<le> v" "v < of_int (py_int v) + 1"
proof -
  have p: "py_int v = \<lfloor>v\<rfloor>" using assms by (simp add: py_int_def)
  show "0 \<le> py_int v" using assms by (simp add: p)
  show "of_int (py_int v) \<le> v" unfolding p by (rule of_int_floor_le)
  show "v < of_int (py_int v) + 1" unfolding p by linarith
qed

section \<open>Properties of the glyph index\<close>

text \<open>The run of \<open>char_index\<close> on one input, step by step.\<close>

lemma char_index_trace:
  assumes "fmul (of_int (max (max r g) b)) boost = p"
    and "min 255 p = a"
    and "float_of_int (int n - 1) = k"
    and "(if invert then fmul (fdiv (fsub 255 a) 255) k else fmul (fdiv a 255) k) = v"
    and "py_int v = t"
    and "max 0 (min t (int n - 1)) = i"
  shows "char_index n (r, g, b) invert boost = i"
proof (cases invert)
  case True
  then have "fmul (fdiv (fsub 255 a) 255) k = v" using assms(4) by simp
  then show ?thesis
    unfolding char_index_def Let_def prod.case assms(1) assms(2) assms(3)
    using True assms(5,6) by simp
next
  case False
  then have "fmul (fdiv a 255) k = v" using assms(4) by simp
  then show ?thesis
    unfolding char_index_def Let_def prod.case assms(1) assms(2) assms(3)
    using False assms(5,6) by simp
qed

text \<open>
  C1 (as the code has it). For every pixel with channels in \<open>[0, 255]\<close> and every ramp of
  size \<open>N \<ge> 2\<close> (below \<open>2^53\<close>, so that \<open>N - 1\<close> is a double), the index computed by
  \<open>pixel_to_ascii\<close> is the specification's formula, evaluated in double precision, with
  the rounding rule \<open>floor\<close>: the code truncates with \<open>int\<close>, it does not round to nearest.
  This holds for every brightness boost, also where the code's \<open>min(255, _)\<close> leaves a
  negative adjusted intensity that the specification would clamp to 0.
\<close>

theorem char_index_truncates:
  assumes "valid_pixel p" "2 \<le> n" "n \<le> 2 ^ 53"
  shows "char_index n p invert brightness_boost = spec_glyph_index floor n p invert brightness_boost"
proof (cases "0 \<le> fmul (of_int (intensity p)) brightness_boost")
  case True
  let ?a = "min 255 (fmul (of_int (intensity p)) brightness_boost)"
  have a: "0 \<le> ?a" "?a \<le> 255" using True by simp_all
  have "0 \<le> ramp_pos n invert ?a" using assms(2) a by (intro ramp_pos_nonneg) simp_all
  then have 1: "py_int (ramp_pos n invert ?a) = \<lfloor>ramp_pos n invert ?a\<rfloor>" by (rule py_int_nonneg)
  have 2: "max 0 ?a = ?a" using a(1) by (rule max_absorb2)
  show ?thesis
    unfolding char_index_eq spec_glyph_index_eq 1 2
    by (rule arg_cong [where f = "max 0", OF min.commute])
next
  case False
  then have neg: "fmul (of_int (intensity p)) brightness_boost \<le> 0" by simp
  have n: "0 < n" using assms(2) by simp
  have m: "max 0 (min 255 (fmul (of_int (intensity p)) brightness_boost)) = 0" using neg by simp
  show ?thesis
    using n by (simp add: char_index_negative_product [OF n assms(3) neg] spec_glyph_index_eq m
        ramp_pos_zero ramp_pos_inverted_zero [OF n assms(3)])
qed

theorem char_index_truncates_witness:
  "valid_pixel (128, 128, 128) \<and> (2::nat) \<le> 2 \<and> (2::nat) \<le> 2 ^ 53
   \<and> char_index 2 (128, 128, 128) False 1 = spec_glyph_index floor 2 (128, 128, 128) False 1"
proof -
  have v: "valid_pixel (128, 128, 128)" by (simp add: valid_pixel_def)
  have n: "(2::nat) \<le> 2 ^ 53" by simp
  show ?thesis using v n char_index_truncates [OF v order_refl n, of False 1] by simp
qed

text \<open>
  C1 as stated fails. For the grey pixel \<open>(128, 128, 128)\<close>, the two-glyph ramp and boost
  1, the ramp position is \<open>128 / 255\<close>, a little above one half: the code selects index 0,
  rounding to nearest selects index 1.
\<close>

theorem char_index_round_counterexample:
  "char_index 2 (128, 128, 128) False 1 = 0
   \<and> spec_glyph_index round 2 (128, 128, 128) False 1 = 1"
proof -
  have s1: "fmul 128 1 = 128"
    unfolding fmul_def
    by (rule round_double_step [of _ 128 1 45]) (simp_all add: round_div_def)
  have s2: "float_of_int 1 = 1"
    unfolding float_of_int_def
    by (rule round_double_step [of _ 1 1 52]) (simp_all add: round_div_def)
  have s3: "fdiv 128 255 = (282578800148737 / 562949953421312)"
    unfolding fdiv_def
    by (rule round_double_step [of _ 128 255 53]) (simp_all add: round_div_def)
  have s4: "fmul (282578800148737 / 562949953421312) 1 = (282578800148737 / 562949953421312)"
    unfolding fmul_def
    by (rule round_double_step [of _ 282578800148737 562949953421312 53]) (simp_all add: round_div_def)
  have s5: "py_int (282578800148737 / 562949953421312) = 0"
    by (rule py_int_step [of _ 282578800148737 562949953421312]) simp_all
  have s6: "round (282578800148737 / 562949953421312 :: rat) = 1"
    by (rule round_step [of _ 282578800148737 562949953421312]) simp_all
  have c: "char_index 2 (128, 128, 128) False 1 = 0"
    by (rule char_index_trace [where p = "128" and a = "128" and k = "1" and v = "(282578800148737 / 562949953421312)" and t = "0"])
      (simp_all add: s1 s2 s3 s4 s5 s6)
  have d: "spec_glyph_index round 2 (128, 128, 128) False 1 = 1"
    unfolding spec_glyph_index_def clamp_def intensity_def Let_def prod.case
    by (simp add: s1 s2 s3 s4 s5 s6)
  show ?thesis using c d by simp
qed

text \<open>
  The floor is that of the double-precision value, which can lie below the exact quotient:
  \<open>155 / 255 * 51\<close> is exactly 31, the two rounded operations give a double just below 31
  and the code selects index 30.
\<close>

lemma char_index_below_exact_floor:
  "char_index 52 (155, 155, 155) False 1 = 30 \<and> \<lfloor>(155::rat) / 255 * 51\<rfloor> = 31"
proof -
  have s1: "fmul 155 1 = 155"
    unfolding fmul_def
    by (rule round_double_step [of _ 155 1 45]) (simp_all add: round_div_def)
  have s2: "float_of_int 51 = 51"
    unfolding float_of_int_def
    by (rule round_double_step [of _ 51 1 47]) (simp_all add: round_div_def)
  have s3: "fdiv 155 255 = (5474964252881779 / 9007199254740992)"
    unfolding fdiv_def
    by (rule round_double_step [of _ 31 51 53]) (simp_all add: round_div_def)
  have s4: "fmul (5474964252881779 / 9007199254740992) 51 = (8725724278030335 / 281474976710656)"
    unfolding fmul_def
    by (rule round_double_step [of _ 279223176896970729 9007199254740992 48]) (simp_all add: round_div_def)
  have s5: "py_int (8725724278030335 / 281474976710656) = 30"
    by (rule py_int_step [of _ 8725724278030335 281474976710656]) simp_all
  have c: "char_index 52 (155, 155, 155) False 1 = 30"
    by (rule char_index_trace [where p = "155" and a = "155" and k = "51" and v = "(8725724278030335 / 281474976710656)" and t = "30"])
      (simp_all add: s1 s2 s3 s4 s5)
  show ?thesis using c by simp
qed

text \<open>
  C2 (as the code has it). For valid pixels and a ramp of size \<open>N\<close> (from 1 to \<open>2^53\<close>)
  the index lies in \<open>[0, N - 1]\<close>. With ramp, boost and flag fixed, the index is monotonically
  non-decreasing in the intensity \<open>max(R, G, B)\<close> when \<open>invert\<close> is false and
  non-increasing when \<open>invert\<close> is true: the directions are the reverse of the claimed
  ones.
\<close>

theorem char_index_bounds_monotone:
  assumes "valid_pixel p" "valid_pixel q" "0 < n" "n \<le> 2 ^ 53" "intensity p \<le> intensity q"
  shows "0 \<le> char_index n p invert boost \<and> char_index n p invert boost \<le> int n - 1
    \<and> char_index n p False boost \<le> char_index n q False boost
    \<and> char_index n q True boost \<le> char_index n p True boost"
proof -
  have b: "0 \<le> char_index n p invert boost \<and> char_index n p invert boost \<le> int n - 1"
    using assms(3) by (simp add: char_index_eq)
  have ip: "0 \<le> intensity p" using assms(1) by (cases p) (simp add: valid_pixel_def intensity_def le_max_iff_disj)
  have iq: "0 \<le> intensity q" using assms(2) by (cases q) (simp add: valid_pixel_def intensity_def le_max_iff_disj)
  have mono: "char_index n p False boost \<le> char_index n q False boost
    \<and> char_index n q True boost \<le> char_index n p True boost"
  proof (cases "0 \<le> boost")
    case True
    have "fmul (of_int (intensity p)) boost \<le> fmul (of_int (intensity q)) boost"
      using True assms(5) by (intro fmul_mono) simp_all
    then have le: "min 255 (fmul (of_int (intensity p)) boost) \<le> min 255 (fmul (of_int (intensity q)) boost)"
      by (simp add: min_le_iff_disj)
    have 1: "py_int (ramp_pos n False (min 255 (fmul (of_int (intensity p)) boost)))
        \<le> py_int (ramp_pos n False (min 255 (fmul (of_int (intensity q)) boost)))"
      by (rule py_int_mono [OF ramp_pos_mono(1) [OF assms(3) le]])
    have 2: "py_int (ramp_pos n True (min 255 (fmul (of_int (intensity q)) boost)))
        \<le> py_int (ramp_pos n True (min 255 (fmul (of_int (intensity p)) boost)))"
      by (rule py_int_mono [OF ramp_pos_mono(2) [OF assms(3) le]])
    show ?thesis
      unfolding char_index_eq by (intro conjI clamp_index_mono 1 2)
  next
    case False
    have "of_int (intensity p) * boost \<le> 0" "of_int (intensity q) * boost \<le> 0"
      using False ip iq by (simp_all add: mult_le_0_iff)
    then have "fmul (of_int (intensity p)) boost \<le> 0" "fmul (of_int (intensity q)) boost \<le> 0"
      unfolding fmul_def by (simp_all add: round_double_nonpos)
    then show ?thesis
      by (simp add: char_index_negative_product [OF assms(3,4)])
  qed
  show ?thesis using b mono by simp
qed

theorem char_index_bounds_monotone_witness:
  "valid_pixel (10, 20, 30) \<and> valid_pixel (200, 100, 0) \<and> (0::nat) < 10 \<and> (10::nat) \<le> 2 ^ 53
   \<and> intensity (10, 20, 30) \<le> intensity (200, 100, 0)
   \<and> 0 \<le> char_index 10 (10, 20, 30) True (3/2)
   \<and> char_index 10 (10, 20, 30) True (3/2) \<le> int 10 - 1
   \<and> char_index 10 (10, 20, 30) False (3/2) \<le> char_index 10 (200, 100, 0) False (3/2)
   \<and> char_index 10 (200, 100, 0) True (3/2) \<le> char_index 10 (10, 20, 30) True (3/2)"
proof -
  have v: "valid_pixel (10, 20, 30)" "valid_pixel (200, 100, 0)" by (simp_all add: valid_pixel_def)
  have n: "(0::nat) < 10" "(10::nat) \<le> 2 ^ 53" by simp_all
  have i: "intensity (10, 20, 30) \<le> intensity (200, 100, 0)" by (simp add: intensity_def)
  show ?thesis using v n i char_index_bounds_monotone [OF v n i, of True "3/2"] by simp
qed

text \<open>
  C2 as stated fails. On the ten-glyph ramp with boost 1, black maps to index 0 and white to
  index 9 when \<open>invert\<close> is false, so the index increases with the intensity; with
  \<open>invert\<close> true black maps to 9 and white to 0.
\<close>

theorem char_index_direction_counterexample:
  "char_index 10 (0, 0, 0) False 1 = 0 \<and> char_index 10 (255, 255, 255) False 1 = 9
   \<and> char_index 10 (0, 0, 0) True 1 = 9 \<and> char_index 10 (255, 255, 255) True 1 = 0"
proof -
  have s1: "fmul 0 1 = 0"
    by (simp add: fmul_def)
  have s2: "float_of_int 9 = 9"
    unfolding float_of_int_def
    by (rule round_double_step [of _ 9 1 49]) (simp_all add: round_div_def)
  have s3: "fdiv 0 255 = 0"
    by (simp add: fdiv_def)
  have s4: "fmul 0 9 = 0"
    by (simp add: fmul_def)
  have s5: "py_int 0 = 0"
    by (simp add: py_int_def)
  have s6: "fmul 255 1 = 255"
    unfolding fmul_def
    by (rule round_double_step [of _ 255 1 45]) (simp_all add: round_div_def)
  have s7: "fdiv 255 255 = 1"
    unfolding fdiv_def
    by (rule round_double_step [of _ 1 1 52]) (simp_all add: round_div_def)
  have s8: "fmul 1 9 = 9"
    unfolding fmul_def
    by (rule round_double_step [of _ 9 1 49]) (simp_all add: round_div_def)
  have s9: "py_int 9 = 9"
    by (simp add: py_int_def)
  have s10: "fsub 255 0 = 255"
    unfolding fsub_def
    by (rule round_double_step [of _ 255 1 45]) (simp_all add: round_div_def)
  have s11: "fsub 255 255 = 0"
    by (simp add: fsub_def)
  have a: "char_index 10 (0, 0, 0) False 1 = 0"
    by (rule char_index_trace [where p = "0" and a = "0" and k = "9" and v = "0" and t = "0"])
      (simp_all add: s1 s2 s3 s4 s5 s6 s7 s8 s9 s10 s11)
  have b: "char_index 10 (255, 255, 255) False 1 = 9"
    by (rule char_index_trace [where p = "255" and a = "255" and k = "9" and v = "9" and t = "9"])
      (simp_all add: s1 s2 s3 s4 s5 s6 s7 s8 s9 s10 s11)
  have c: "char_index 10 (0, 0, 0) True 1 = 9"
    by (rule char_index_trace [where p = "0" and a = "0" and k = "9" and v = "9" and t = "9"])
      (simp_all add: s1 s2 s3 s4 s5 s6 s7 s8 s9 s10 s11)
  have d: "char_index 10 (255, 255, 255) True 1 = 0"
    by (rule char_index_trace [where p = "255" and a = "255" and k = "9" and v = "0" and t = "0"])
      (simp_all add: s1 s2 s3 s4 s5 s6 s7 s8 s9 s10 s11)
  show ?thesis using a b c d by simp
qed

section \<open>Properties of the direction detector\<close>

lemma detect_direction_window:
  "detect_direction (Some img) x y ws =
     (let wg = clipped_window img x y ws
      in if fst (shape2 wg) < 3 \<or> snd (shape2 wg) < 3 then Inr (Some (u ''none''))
         else case mul_sum wg h_kernel of
                Inl e \<Rightarrow> Inl e
              | Inr sx \<Rightarrow>
                  (case mul_sum wg v_kernel of
                     Inl e \<Rightarrow> Inl e
                   | Inr sy \<Rightarrow>
                       if \<bar>sx\<bar> < 20 \<and> \<bar>sy\<bar> < 20 then Inr (Some (u ''none''))
                       else Inr (Some (direction_of_angle
                              (arctan2 (of_int \<bar>sy\<bar>) (of_int \<bar>sx\<bar>) * 180 / pi)))))"
proof (cases "image_shape img")
  case (Pair h w)
  show ?thesis
    unfolding detect_direction_def clipped_window_def Let_def Pair prod.case option.case
    by (rule refl)
qed

lemma length_py_slice_le:
  assumes "0 \<le> a" "0 \<le> b"
  shows "length (py_slice xs a b) \<le> nat (b - a)"
proof -
  let ?n = "int (length xs)"
  have "length (py_slice xs a b) \<le> nat (min b ?n - min a ?n)"
    using assms by (simp add: py_slice_def Let_def)
  also have "\<dots> \<le> nat (b - a)"
  proof (cases "a \<le> ?n")
    case True
    then have "min a ?n = a" by simp
    moreover have "min b ?n \<le> b" by simp
    ultimately show ?thesis by linarith
  next
    case False
    then have "min a ?n = ?n" by simp
    moreover have "min b ?n \<le> ?n" by simp
    ultimately show ?thesis by linarith
  qed
  finally show ?thesis .
qed

lemma shape2_slice2:
  assumes "0 \<le> y0" "0 \<le> y1" "0 \<le> x0" "0 \<le> x1"
  shows "fst (shape2 (slice2 rows y0 y1 x0 x1)) \<le> nat (y1 - y0)"
    and "snd (shape2 (slice2 rows y0 y1 x0 x1)) \<le> nat (x1 - x0)"
proof -
  have fst_len: "fst (shape2 zs) = length zs" for zs :: "'a list list" by (cases zs) simp_all
  show "fst (shape2 (slice2 rows y0 y1 x0 x1)) \<le> nat (y1 - y0)"
    using length_py_slice_le [OF assms(1,2), of rows] by (simp add: fst_len slice2_def)
  show "snd (shape2 (slice2 rows y0 y1 x0 x1)) \<le> nat (x1 - x0)"
  proof (cases "py_slice rows y0 y1")
    case Nil
    then show ?thesis by (simp add: slice2_def)
  next
    case (Cons r rs)
    then show ?thesis
      using length_py_slice_le [OF assms(3,4), of r] by (simp add: slice2_def)
  qed
qed

lemma shape2_map_map: "shape2 (map (map f) rows) = shape2 rows"
  by (cases rows) simp_all

lemma shape2_gray_window:
  assumes "0 \<le> y0" "0 \<le> y1" "0 \<le> x0" "0 \<le> x1"
  shows "fst (shape2 (gray_window img y0 y1 x0 x1)) \<le> nat (y1 - y0)"
    and "snd (shape2 (gray_window img y0 y1 x0 x1)) \<le> nat (x1 - x0)"
proof -
  show "fst (shape2 (gray_window img y0 y1 x0 x1)) \<le> nat (y1 - y0)"
    using shape2_slice2(1) [OF assms, where ?'a = int] shape2_slice2(1) [OF assms, where ?'a = "int list"]
    by (cases img) (simp_all add: shape2_map_map)
  show "snd (shape2 (gray_window img y0 y1 x0 x1)) \<le> nat (x1 - x0)"
    using shape2_slice2(2) [OF assms, where ?'a = int] shape2_slice2(2) [OF assms, where ?'a = "int list"]
    by (cases img) (simp_all add: shape2_map_map)
qed

lemma clipped_window_shape:
  assumes "0 \<le> x" "0 \<le> y" "image_shape img = (h, w)"
  shows "fst (shape2 (clipped_window img x y 3))
           \<le> nat (min (int h - 1) (y + 1) + 1 - max 0 (y - 1))"
    and "snd (shape2 (clipped_window img x y 3))
           \<le> nat (min (int w - 1) (x + 1) + 1 - max 0 (x - 1))"
proof -
  have b: "0 \<le> max 0 (y - 1)" "0 \<le> min (int h - 1) (y + 1) + 1"
    "0 \<le> max 0 (x - 1)" "0 \<le> min (int w - 1) (x + 1) + 1"
    using assms(1,2) by simp_all
  show "fst (shape2 (clipped_window img x y 3))
           \<le> nat (min (int h - 1) (y + 1) + 1 - max 0 (y - 1))"
    using shape2_gray_window(1) [OF b, of img] by (simp add: clipped_window_def assms(3))
  show "snd (shape2 (clipped_window img x y 3))
           \<le> nat (min (int w - 1) (x + 1) + 1 - max 0 (x - 1))"
    using shape2_gray_window(2) [OF b, of img] by (simp add: clipped_window_def assms(3))
qed

lemma mul_sum_uniform:
  "mul_sum [[c, c, c], [c, c, c], [c, c, c]] h_kernel = Inr 0"
  "mul_sum [[c, c, c], [c, c, c], [c, c, c]] v_kernel = Inr 0"
  by (simp_all add: mul_sum_def h_kernel_def v_kernel_def)

lemma detect_direction_small_window:
  assumes "fst (shape2 (clipped_window img x y ws)) < 3 \<or> snd (shape2 (clipped_window img x y ws)) < 3"
  shows "detect_direction (Some img) x y ws = Inr (Some (u ''none''))"
  using assms by (simp add: detect_direction_window)

lemma angle_range:
  assumes "0 \<le> gx" "0 \<le> gy"
  shows "0 \<le> arctan2 gy gx * 180 / pi \<and> arctan2 gy gx * 180 / pi \<le> 90"
proof -
  have "0 \<le> arctan2 gy gx \<and> arctan2 gy gx \<le> pi / 2"
  proof (cases "0 < gx")
    case True
    then have "0 \<le> gy / gx" using assms(2) by simp
    then have "0 \<le> arctan (gy / gx)" by (simp only: zero_le_arctan_iff)
    moreover have "arctan (gy / gx) < pi / 2" by (rule arctan_ubound)
    ultimately show ?thesis using True by (simp add: arctan2_def)
  next
    case False
    then have "gx = 0" using assms(1) by simp
    then show ?thesis using assms(2) by (simp add: arctan2_def)
  qed
  moreover have "0 < pi" by (rule pi_gt_zero)
  ultimately show ?thesis by (simp add: field_simps)
qed

lemma direction_of_angle_quadrant:
  assumes "0 \<le> a" "a \<le> 90"
  shows "direction_of_angle a \<in> {u ''e'', u ''ne'', u ''n''}"
  using assms by (simp add: direction_of_angle_def)

lemma detect_direction_cases:
  "detect_direction (Some img) x y ws = Inl ValueError
   \<or> (\<exists>d \<in> reachable_directions. detect_direction (Some img) x y ws = Inr (Some d))"
proof -
  have q: "direction_of_angle (arctan2 (of_int \<bar>sy\<bar>) (of_int \<bar>sx\<bar>) * 180 / pi) \<in> reachable_directions"
    for sx sy :: int
    using direction_of_angle_quadrant [OF conjunct1 conjunct2, OF angle_range angle_range,
        of "of_int \<bar>sx\<bar>" "of_int \<bar>sy\<bar>"]
    by (auto simp: reachable_directions_def)
  have m: "mul_sum wg k = Inl e \<Longrightarrow> e = ValueError" for wg k e
    by (simp add: mul_sum_def split: if_splits)
  have n: "u ''none'' \<in> reachable_directions" by (simp add: reachable_directions_def)
  show ?thesis
  proof (cases "detect_direction (Some img) x y ws")
    case (Inl e)
    then have "e = ValueError"
      unfolding detect_direction_window Let_def
      by (auto split: if_splits sum.splits dest: m)
    then show ?thesis using Inl by simp
  next
    case (Inr r)
    then have "\<exists>d \<in> reachable_directions. r = Some d"
      unfolding detect_direction_window Let_def
      using q n by (auto split: if_splits sum.splits)
    then show ?thesis using Inr by auto
  qed
qed


lemma detect_direction_total:
  assumes "0 \<le> x" "0 \<le> y"
  shows "detect_direction (Some img) x y 3 \<noteq> Inl e"
proof -
  obtain h w where hw: "image_shape img = (h, w)" by (cases "image_shape img")
  let ?wg = "clipped_window img x y 3"
  have "nat (min (int h - 1) (y + 1) + 1 - max 0 (y - 1)) \<le> 3"
    "nat (min (int w - 1) (x + 1) + 1 - max 0 (x - 1)) \<le> 3"
    by linarith+
  then have le: "fst (shape2 ?wg) \<le> 3" "snd (shape2 ?wg) \<le> 3"
    using clipped_window_shape [OF assms hw] by linarith+
  show ?thesis
  proof (cases "fst (shape2 ?wg) < 3 \<or> snd (shape2 ?wg) < 3")
    case True
    then show ?thesis by (simp add: detect_direction_small_window)
  next
    case False
    then have "fst (shape2 ?wg) = 3" "snd (shape2 ?wg) = 3" using le by linarith+
    then have "shape2 ?wg = (3, 3)" by (simp add: prod_eq_iff)
    then have "mul_sum ?wg k = Inr (sum_list (map2 (\<lambda>rw rk. sum_list (map2 (*) rw rk)) ?wg k))" for k
      by (simp add: mul_sum_def)
    then show ?thesis
      unfolding detect_direction_window Let_def by (simp split: if_splits)
  qed
qed

text \<open>
  C5. \<open>detect_direction\<close> returns \<open>'none'\<close> (1) whenever the window clipped to the buffer
  has fewer than three rows or columns, in particular for window size 3 at every focal pixel
  on the border of the image (first or last row or column), and (2) for every window of one
  intensity: both Sobel kernels sum to zero, so \<open>gx = gy = 0 < 20\<close>.
\<close>

theorem detect_direction_none:
  "(fst (shape2 (clipped_window img x y ws)) < 3 \<or> snd (shape2 (clipped_window img x y ws)) < 3
      \<longrightarrow> detect_direction (Some img) x y ws = Inr (Some (u ''none'')))
   \<and> (0 \<le> x \<and> 0 \<le> y \<and> image_shape img = (h, w)
        \<and> (x = 0 \<or> int w - 1 \<le> x \<or> y = 0 \<or> int h - 1 \<le> y)
      \<longrightarrow> detect_direction (Some img) x y 3 = Inr (Some (u ''none'')))
   \<and> (clipped_window img x y ws = [[c, c, c], [c, c, c], [c, c, c]]
      \<longrightarrow> detect_direction (Some img) x y ws = Inr (Some (u ''none'')))"
proof (intro conjI impI)
  assume "fst (shape2 (clipped_window img x y ws)) < 3 \<or> snd (shape2 (clipped_window img x y ws)) < 3"
  then show "detect_direction (Some img) x y ws = Inr (Some (u ''none''))"
    by (rule detect_direction_small_window)
next
  assume a: "0 \<le> x \<and> 0 \<le> y \<and> image_shape img = (h, w)
        \<and> (x = 0 \<or> int w - 1 \<le> x \<or> y = 0 \<or> int h - 1 \<le> y)"
  then have s: "fst (shape2 (clipped_window img x y 3))
           \<le> nat (min (int h - 1) (y + 1) + 1 - max 0 (y - 1))"
      "snd (shape2 (clipped_window img x y 3))
           \<le> nat (min (int w - 1) (x + 1) + 1 - max 0 (x - 1))"
    using clipped_window_shape [of x y img h w] by simp_all
  from a consider "x = 0 \<or> int w - 1 \<le> x" | "y = 0 \<or> int h - 1 \<le> y" by blast
  then have "fst (shape2 (clipped_window img x y 3)) < 3 \<or> snd (shape2 (clipped_window img x y 3)) < 3"
  proof cases
    case 1
    then have "nat (min (int w - 1) (x + 1) + 1 - max 0 (x - 1)) < 3" using a by auto
    then show ?thesis using s(2) by linarith
  next
    case 2
    then have "nat (min (int h - 1) (y + 1) + 1 - max 0 (y - 1)) < 3" using a by auto
    then show ?thesis using s(1) by linarith
  qed
  then show "detect_direction (Some img) x y 3 = Inr (Some (u ''none''))"
    by (rule detect_direction_small_window)
next
  assume "clipped_window img x y ws = [[c, c, c], [c, c, c], [c, c, c]]"
  then show "detect_direction (Some img) x y ws = Inr (Some (u ''none''))"
    by (simp add: detect_direction_window mul_sum_uniform)
qed

theorem detect_direction_none_witness:
  "detect_direction (Some (Gray [[1, 2, 3], [4, 5, 6], [7, 8, 9]])) 0 1 3 = Inr (Some (u ''none''))
   \<and> detect_direction (Some (Gray [[7, 7, 7], [7, 7, 7], [7, 7, 7]])) 1 1 3 = Inr (Some (u ''none''))"
proof -
  have s: "image_shape (Gray [[1, 2, 3], [4, 5, 6], [7, 8, 9]]) = (3, 3)" by simp
  have r: "py_slice [7, 7, 7 :: int] 0 3 = [7, 7, 7]" by (simp add: py_slice_def)
  have rs: "py_slice [[7, 7, 7], [7, 7, 7], [7, 7, 7 :: int]] 0 3 = [[7, 7, 7], [7, 7, 7], [7, 7, 7]]"
    by (simp add: py_slice_def)
  have w: "clipped_window (Gray [[7, 7, 7], [7, 7, 7], [7, 7, 7]]) 1 1 3
      = [[7, 7, 7], [7, 7, 7], [7, 7, 7]]"
    by (simp add: clipped_window_def slice2_def r rs)
  show ?thesis
    using s w
      detect_direction_none [of "Gray [[1, 2, 3], [4, 5, 6], [7, 8, 9]]" 0 1 3 3 3 0]
      detect_direction_none [of "Gray [[7, 7, 7], [7, 7, 7], [7, 7, 7]]" 1 1 3 3 3 7]
    by simp
qed

text \<open>
  C6. \<open>gx\<close> and \<open>gy\<close> are absolute values, so the angle lies between 0 and 90 degrees
  and only \<open>'none'\<close>, \<open>'e'\<close>, \<open>'ne'\<close> and \<open>'n'\<close> are ever returned: for every buffer and
  every coordinate inside it (every non-negative coordinate) the call with window size 3
  returns one of the four, and no call at all, whatever the buffer, the coordinate and the
  window size, returns \<open>'nw'\<close>, \<open>'w'\<close>, \<open>'sw'\<close>, \<open>'s'\<close> or \<open>'se'\<close>.
\<close>

theorem detect_direction_reachable:
  "(0 \<le> x \<and> 0 \<le> y \<longrightarrow>
      (\<exists>d \<in> reachable_directions. detect_direction (Some img) x y 3 = Inr (Some d)))
   \<and> (\<forall>d. detect_direction (Some img) x' y' ws = Inr (Some d) \<longrightarrow> d \<in> reachable_directions)
   \<and> detect_direction ia x' y' ws \<noteq> Inr (Some (u ''nw''))
   \<and> detect_direction ia x' y' ws \<noteq> Inr (Some (u ''w''))
   \<and> detect_direction ia x' y' ws \<noteq> Inr (Some (u ''sw''))
   \<and> detect_direction ia x' y' ws \<noteq> Inr (Some (u ''s''))
   \<and> detect_direction ia x' y' ws \<noteq> Inr (Some (u ''se''))"
proof -
  have not_in: "u ''nw'' \<notin> reachable_directions" "u ''w'' \<notin> reachable_directions"
    "u ''sw'' \<notin> reachable_directions" "u ''s'' \<notin> reachable_directions"
    "u ''se'' \<notin> reachable_directions"
    by (simp_all add: reachable_directions_def u_def)
  have all: "d \<in> reachable_directions" if "detect_direction ia x' y' ws = Inr (Some d)" for d ia
  proof (cases ia)
    case None
    then show ?thesis using that by (simp add: detect_direction_def)
  next
    case (Some img')
    then show ?thesis using that detect_direction_cases [of img' x' y' ws] by auto
  qed
  have tot: "\<exists>d \<in> reachable_directions. detect_direction (Some img) x y 3 = Inr (Some d)"
    if "0 \<le> x" "0 \<le> y"
    using detect_direction_cases [of img x y 3] detect_direction_total [OF that, of img ValueError]
    by simp
  show ?thesis using not_in all tot by blast
qed

theorem detect_direction_reachable_witness:
  "(\<exists>d \<in> reachable_directions.
      detect_direction (Some (Gray [[0, 0, 255], [0, 0, 255], [0, 0, 255]])) 1 1 3 = Inr (Some d))
   \<and> detect_direction (Some (Gray [[0, 0, 255], [0, 0, 255], [0, 0, 255]])) 1 1 3
       = Inr (Some (u ''e''))"
proof -
  let ?img = "Gray [[0, 0, 255], [0, 0, 255], [0, 0, 255]]"
  have r: "py_slice [0, 0, 255 :: int] 0 3 = [0, 0, 255]" by (simp add: py_slice_def)
  have rs: "py_slice [[0, 0, 255], [0, 0, 255], [0, 0, 255 :: int]] 0 3
      = [[0, 0, 255], [0, 0, 255], [0, 0, 255]]"
    by (simp add: py_slice_def)
  have w: "clipped_window ?img 1 1 3 = [[0, 0, 255], [0, 0, 255], [0, 0, 255]]"
    by (simp add: clipped_window_def slice2_def r rs)
  have gx: "mul_sum [[0, 0, 255], [0, 0, 255], [0, 0, 255]] h_kernel = Inr 1020"
    by (simp add: mul_sum_def h_kernel_def)
  have gy: "mul_sum [[0, 0, 255], [0, 0, 255], [0, 0, 255]] v_kernel = Inr 0"
    by (simp add: mul_sum_def v_kernel_def)
  have a: "arctan2 0 1020 * 180 / pi = 0" by (simp add: arctan2_def)
  have d: "direction_of_angle 0 = u ''e''" by (simp add: direction_of_angle_def)
  have e: "detect_direction (Some ?img) 1 1 3 = Inr (Some (u ''e''))"
    by (simp add: detect_direction_window w gx gy a d)
  show ?thesis
    using e detect_direction_reachable [of 1 1 ?img] by simp
qed

section \<open>Properties of the grid dimensions\<close>

text \<open>The run of \<open>calculate_ascii_dimensions\<close> on one input, step by step.\<close>

lemma calculate_ascii_dimensions_trace:
  assumes "W \<noteq> 0" "H \<noteq> 0"
    and "fmul fs (lit (6/10)) = cw" "cw \<noteq> 0" "fs \<noteq> 0"
    and "py_int (fdiv W cw) = rc" "py_int (fdiv H fs) = rr" "fdiv W H = T"
    and "fmul (float_of_int rr) fs = den"
  shows "den = 0 \<Longrightarrow> calculate_ascii_dimensions W H fs c = Inl ZeroDivisionError"
    and "den \<noteq> 0 \<Longrightarrow> fdiv (fmul (float_of_int rc) cw) den = G \<Longrightarrow> G < T \<Longrightarrow>
         py_int (fmul (fdiv (float_of_int rc) T) (fdiv cw fs)) = rows \<Longrightarrow>
         calculate_ascii_dimensions W H fs True =
           (if rows = 0 then Inl ZeroDivisionError else Inr (Some rc, Some rows))"
    and "den \<noteq> 0 \<Longrightarrow> fdiv (fmul (float_of_int rc) cw) den = G \<Longrightarrow> \<not> G < T \<Longrightarrow>
         py_int (fmul (fmul (float_of_int rr) T) (fdiv fs cw)) = cols \<Longrightarrow>
         calculate_ascii_dimensions W H fs True =
           (if rr = 0 then Inl ZeroDivisionError else Inr (Some cols, Some rr))"
    and "den \<noteq> 0 \<Longrightarrow>
         calculate_ascii_dimensions W H fs False =
           (if rr = 0 then Inl ZeroDivisionError else Inr (Some rc, Some rr))"
  unfolding calculate_ascii_dimensions_def Let_def assms(3) assms(6) assms(7) assms(8) assms(9)
  using assms(1,2,4,5) by simp_all

text \<open>
  C3. With aspect correction on, a raw floored grid of at least 1 on one axis should give
  \<open>cols \<ge> 1\<close> and \<open>rows \<ge> 1\<close>. For a 100 by 5 canvas at font size 12 the raw grid has 13
  columns and 0 rows, and the call raises \<open>ZeroDivisionError\<close> (the grid aspect ratio
  divides by \<open>raw_rows * char_height\<close>). For a 7 by 15 canvas at font size 10 the raw grid
  is 1 by 1, and the call returns 0 columns and 1 row.
\<close>

theorem calculate_ascii_dimensions_degenerate:
  "py_int (fdiv 100 (fmul 12 (lit (6/10)))) = 13
   \<and> calculate_ascii_dimensions 100 5 12 True = Inl ZeroDivisionError
   \<and> py_int (fdiv 7 (fmul 10 (lit (6/10)))) = 1 \<and> py_int (fdiv 15 10) = 1
   \<and> calculate_ascii_dimensions 7 15 10 True = Inr (Some 0, Some 1)"
proof -
  have s1: "lit (3 / 5) = (5404319552844595 / 9007199254740992)"
    unfolding lit_def
    by (rule round_double_step [of _ 3 5 53]) (simp_all add: round_div_def)
  have s2: "fmul 12 (5404319552844595 / 9007199254740992) = (2026619832316723 / 281474976710656)"
    unfolding fmul_def
    by (rule round_double_step [of _ 16212958658533785 2251799813685248 50]) (simp_all add: round_div_def)
  have s3: "fdiv 100 (2026619832316723 / 281474976710656) = (7818749353073779 / 562949953421312)"
    unfolding fdiv_def
    by (rule round_double_step [of _ 28147497671065600 2026619832316723 49]) (simp_all add: round_div_def)
  have s4: "py_int (7818749353073779 / 562949953421312) = 13"
    by (rule py_int_step [of _ 7818749353073779 562949953421312]) simp_all
  have s5: "fdiv 5 12 = (7505999378950827 / 18014398509481984)"
    unfolding fdiv_def
    by (rule round_double_step [of _ 5 12 54]) (simp_all add: round_div_def)
  have s6: "py_int (7505999378950827 / 18014398509481984) = 0"
    by (rule py_int_step [of _ 7505999378950827 18014398509481984]) simp_all
  have s7: "fdiv 100 5 = 20"
    unfolding fdiv_def
    by (rule round_double_step [of _ 20 1 48]) (simp_all add: round_div_def)
  have s8: "float_of_int 0 = 0"
    by (simp add: float_of_int_def)
  have s9: "fmul 0 12 = 0"
    by (simp add: fmul_def)
  have s10: "fmul 10 (5404319552844595 / 9007199254740992) = 6"
    unfolding fmul_def
    by (rule round_double_step [of _ 27021597764222975 4503599627370496 50]) (simp_all add: round_div_def)
  have s11: "fdiv 7 6 = (5254199565265579 / 4503599627370496)"
    unfolding fdiv_def
    by (rule round_double_step [of _ 7 6 52]) (simp_all add: round_div_def)
  have s12: "py_int (5254199565265579 / 4503599627370496) = 1"
    by (rule py_int_step [of _ 5254199565265579 4503599627370496]) simp_all
  have s13: "fdiv 15 10 = (3 / 2)"
    unfolding fdiv_def
    by (rule round_double_step [of _ 3 2 52]) (simp_all add: round_div_def)
  have s14: "py_int (3 / 2) = 1"
    by (rule py_int_step [of _ 3 2]) simp_all
  have s15: "fdiv 7 15 = (4203359652212463 / 9007199254740992)"
    unfolding fdiv_def
    by (rule round_double_step [of _ 7 15 54]) (simp_all add: round_div_def)
  have s16: "float_of_int 1 = 1"
    unfolding float_of_int_def
    by (rule round_double_step [of _ 1 1 52]) (simp_all add: round_div_def)
  have s17: "fmul 1 10 = 10"
    unfolding fmul_def
    by (rule round_double_step [of _ 10 1 49]) (simp_all add: round_div_def)
  have s18: "fmul 1 6 = 6"
    unfolding fmul_def
    by (rule round_double_step [of _ 6 1 50]) (simp_all add: round_div_def)
  have s19: "fdiv 6 10 = (5404319552844595 / 9007199254740992)"
    unfolding fdiv_def
    by (rule round_double_step [of _ 3 5 53]) (simp_all add: round_div_def)
  have s20: "fmul 1 (4203359652212463 / 9007199254740992) = (4203359652212463 / 9007199254740992)"
    unfolding fmul_def
    by (rule round_double_step [of _ 4203359652212463 9007199254740992 54]) (simp_all add: round_div_def)
  have s21: "fdiv 10 6 = (7505999378950827 / 4503599627370496)"
    unfolding fdiv_def
    by (rule round_double_step [of _ 5 3 52]) (simp_all add: round_div_def)
  have s22: "fmul (4203359652212463 / 9007199254740992) (7505999378950827 / 4503599627370496) = (7005599420354105 / 9007199254740992)"
    unfolding fmul_def
    by (rule round_double_step [of _ 31550414939013711449882233556901 40564819207303340847894502572032 53]) (simp_all add: round_div_def)
  have s23: "py_int (7005599420354105 / 9007199254740992) = 0"
    by (rule py_int_step [of _ 7005599420354105 9007199254740992]) simp_all
  have a: "calculate_ascii_dimensions 100 5 12 True = Inl ZeroDivisionError"
    by (rule calculate_ascii_dimensions_trace(1) [where cw = "(2026619832316723 / 281474976710656)" and rc = "13" and rr = "0" and T = "20" and den = "0"])
      (simp_all add: s1 s2 s3 s4 s5 s6 s7 s8 s9 s10 s11 s12 s13 s14 s15 s16 s17 s18 s19 s20 s21 s22 s23)
  have b: "calculate_ascii_dimensions 7 15 10 True = Inr (Some 0, Some 1)"
    using calculate_ascii_dimensions_trace(3) [where W = "7" and H = "15" and fs = "10" and cw = "6" and rc = "1" and rr = "1" and T = "(4203359652212463 / 9007199254740992)" and den = "10" and G = "(5404319552844595 / 9007199254740992)" and cols = "0"]
    by (simp add: s1 s2 s3 s4 s5 s6 s7 s8 s9 s10 s11 s12 s13 s14 s15 s16 s17 s18 s19 s20 s21 s22 s23)
  have c: "py_int (fdiv 100 (fmul 12 (lit (6/10)))) = 13"
    "py_int (fdiv 7 (fmul 10 (lit (6/10)))) = 1" "py_int (fdiv 15 10) = 1"
    by (simp_all add: s1 s2 s3 s4 s5 s6 s7 s8 s9 s10 s11 s12 s13 s14 s15 s16 s17 s18 s19 s20 s21 s22 s23)
  show ?thesis using a b c by simp
qed

lemma fixed_cols_bound:
  fixes A T r c k q :: rat
  assumes "0 < T" "0 < r" "0 \<le> c" "c \<le> q" "0 \<le> k" "k \<le> 1"
    and "r * q \<le> A" "A * q < r + 1"
  shows "c * k * T \<le> A * T / r" "c * (A * T / r) \<le> (1 + 1 / r) * T"
proof -
  have q: "0 \<le> q" using assms(3,4) by simp
  have "c * k \<le> q * 1" using assms(3-6) q by (intro mult_mono) simp_all
  also have "q * 1 \<le> A / r" using assms(2,7) by (simp add: pos_le_divide_eq mult.commute)
  finally have "c * k * T \<le> A / r * T" using assms(1) by (intro mult_right_mono) simp_all
  then show "c * k * T \<le> A * T / r" by simp
  have A: "0 \<le> A"
  proof -
    have "0 \<le> r * q" using assms(2) q by simp
    then show ?thesis using assms(7) by simp
  qed
  have "c * A \<le> q * A" using assms(4) A by (intro mult_right_mono)
  also have "\<dots> < r + 1" using assms(8) by (simp add: mult.commute)
  finally have "c * A / r < (r + 1) / r" using assms(2) by (simp add: divide_strict_right_mono)
  also have "(r + 1) / r = 1 + 1 / r" using assms(2) by (simp add: field_simps)
  finally have "c * A / r * T \<le> (1 + 1 / r) * T"
    using assms(1) by (intro mult_right_mono) simp_all
  then show "c * (A * T / r) \<le> (1 + 1 / r) * T" by (simp add: mult.assoc)
qed

lemma fixed_rows_bound:
  fixes B T r n c q :: rat
  assumes "0 < T" "0 < r" "0 \<le> n" "0 < B" "0 \<le> c" "c \<le> q"
    and "n * q \<le> B" "B * q < n + 1"
  shows "c * (n / (n + 1)) * T \<le> n * T / B" "c * (n * T / B) \<le> (1 + 1 / r) * T"
proof -
  have q: "0 \<le> q" using assms(5,6) by simp
  have n1: "0 < n + 1" using assms(3) by simp
  have "q / (n + 1) \<le> 1 / B"
  proof -
    have "q * B \<le> (n + 1) * 1" using assms(8) by (simp add: mult.commute)
    then show ?thesis using assms(4) n1 by (simp add: field_simps)
  qed
  then have "n * (q / (n + 1)) \<le> n * (1 / B)" using assms(3) by (rule mult_left_mono)
  moreover have "c * (n / (n + 1)) \<le> q * (n / (n + 1))"
    using assms(3,6) n1 by (intro mult_right_mono) simp_all
  ultimately have "c * (n / (n + 1)) \<le> n / B" by (simp add: mult.commute)
  then have "c * (n / (n + 1)) * T \<le> n / B * T" using assms(1) by (intro mult_right_mono) simp_all
  then show "c * (n / (n + 1)) * T \<le> n * T / B" by simp
  have "c * n \<le> q * n" using assms(3,6) by (intro mult_right_mono)
  also have "\<dots> \<le> B" using assms(7) by (simp add: mult.commute)
  finally have "c * n / B \<le> 1" using assms(4) by (simp add: pos_divide_le_eq)
  then have "c * n / B * T \<le> 1 * T" using assms(1) by (intro mult_right_mono) simp_all
  also have "1 * T \<le> (1 + 1 / r) * T" using assms(1,2) by (intro mult_right_mono) simp_all
  finally show "c * (n * T / B) \<le> (1 + 1 / r) * T" by (simp add: mult.assoc)
qed

text \<open>
  C4 (as the code has it). For positive target dimensions and font size, with aspect
  correction on, whenever the call returns \<open>(cols, rows)\<close> there is at least one row, and
  the rendered aspect ratio is off the target ratio \<open>W / H\<close> by the truncation of one
  dimension only: from above by the relative error \<open>1 / rows\<close> at most, from below by
  \<open>1 / (cols + 1)\<close> at most, each up to the factor \<open>1 - 2^-50\<close> that covers the rounding of
  the five float operations. The deviation is small for large grids only.
\<close>

theorem calculate_ascii_dimensions_aspect:
  assumes "0 < W" "0 < H" "0 < fs"
    and res: "calculate_ascii_dimensions W H fs True = Inr (Some cols, Some rows)"
  shows "1 \<le> rows \<and> 0 \<le> cols
    \<and> (1 - 1 / 2 ^ 50) * (of_int cols / (of_int cols + 1)) * (W / H) \<le> rendered_ratio cols rows fs
    \<and> (1 - 1 / 2 ^ 50) * rendered_ratio cols rows fs \<le> (1 + 1 / of_int rows) * (W / H)"
proof -
  define cw where "cw = fmul fs (lit (6/10))"
  define rc where "rc = py_int (fdiv W cw)"
  define rr where "rr = py_int (fdiv H fs)"
  define T where "T = fdiv W H"
  define den where "den = fmul (float_of_int rr) fs"
  define G where "G = fdiv (fmul (float_of_int rc) cw) den"
  define c50 :: rat where "c50 = 1 - 1 / 2 ^ 50"
  define q5 where "q5 = rel_q ^ 5"
  have c50: "0 \<le> c50" "c50 \<le> q5" using rel_q_pow5 by (simp_all add: c50_def q5_def)
  have "0 < lit (6/10)" unfolding lit_def by (rule round_double_pos) simp
  then have cw: "0 < cw" unfolding cw_def fmul_def using assms(3) by (intro round_double_pos) simp
  have T: "0 < T" unfolding T_def fdiv_def using assms(1,2) by (intro round_double_pos) simp
  have Tx: "0 < W / H" using assms(1,2) by simp
  have rc: "0 \<le> rc" unfolding rc_def fdiv_def
    using assms(1) cw by (intro py_int_floor_bounds(1) round_double_nonneg) simp
  have rr: "0 \<le> rr" unfolding rr_def fdiv_def
    using assms(2,3) by (intro py_int_floor_bounds(1) round_double_nonneg) simp
  have frc: "0 \<le> float_of_int rc" using rc by (rule float_of_int_nonneg)
  have frr: "0 \<le> float_of_int rr" using rr by (rule float_of_int_nonneg)
  have W0: "0 \<le> W" and fs0: "0 \<le> fs" and cw0: "0 \<le> cw" and T0: "0 \<le> T"
    and Tx0: "0 \<le> W / H" and rc': "(0::rat) \<le> of_int rc" and rr': "(0::rat) \<le> of_int rr"
    using assms(1,3) cw T Tx rc rr by simp_all
  have cT: "close 1 T (W / H)"
    unfolding T_def using close_fdiv [OF close_refl close_refl W0 W0 assms(2) assms(2)] by simp
  have k: "0 \<le> of_int cols / (of_int cols + 1 :: rat)" "of_int cols / (of_int cols + 1 :: rat) \<le> 1"
    if "0 \<le> cols" using that by simp_all
  note tr = calculate_ascii_dimensions_trace [of W H fs cw rc rr T den,
      OF _ _ cw_def [symmetric] _ _ rc_def [symmetric] rr_def [symmetric] T_def [symmetric]
        den_def [symmetric]]
  have ne: "W \<noteq> 0" "H \<noteq> 0" "cw \<noteq> 0" "fs \<noteq> 0" using assms(1-3) cw by simp_all
  have R0: "rendered_ratio cols rows fs = of_int cols * cw / (of_int rows * fs)"
    unfolding rendered_ratio_def cw_def ..
  have den: "den \<noteq> 0"
  proof
    assume "den = 0"
    from tr(1) [OF ne this, of True] res show False by simp
  qed
  show ?thesis
  proof (cases "G < T")
    case True
    define v where "v = fmul (fdiv (float_of_int rc) T) (fdiv cw fs)"
    have "calculate_ascii_dimensions W H fs True =
        (if py_int v = 0 then Inl ZeroDivisionError else Inr (Some rc, Some (py_int v)))"
      unfolding v_def by (rule tr(2) [OF ne den G_def [symmetric] True refl])
    then have eq: "cols = rc" "rows = py_int v" "py_int v \<noteq> 0"
      using res by (simp_all split: if_splits)
    have d1: "0 \<le> fdiv (float_of_int rc) T" by (rule fdiv_nonneg [OF frc T0])
    have d2: "0 \<le> fdiv cw fs" by (rule fdiv_nonneg [OF cw0 fs0])
    have v: "0 \<le> v" unfolding v_def by (rule fmul_nonneg [OF d1 d2])
    note fl = py_int_floor_bounds [OF v]
    have rows: "1 \<le> rows" using fl(1) eq(2,3) by simp
    define A where "A = of_int rc / (W / H) * (cw / fs)"
    have a1: "0 \<le> of_int rc / (W / H)" by (rule divide_nonneg_pos [OF rc' Tx])
    have a2: "0 \<le> cw / fs" by (rule divide_nonneg_pos [OF cw0 assms(3)])
    have c1: "close 3 (fdiv (float_of_int rc) T) (of_int rc / (W / H))"
      using close_fdiv [OF close_float_of_int [OF rc] cT frc rc' T Tx] by (simp add: eval_nat_numeral)
    have c2: "close 1 (fdiv cw fs) (cw / fs)"
      using close_fdiv [OF close_refl close_refl cw0 cw0 assms(3) assms(3)] by simp
    have "close 5 v A"
      unfolding v_def A_def
      using close_fmul [OF c1 c2 d1 a1 d2 a2] by (simp add: eval_nat_numeral)
    then have cA: "A * q5 \<le> v" "v * q5 \<le> A" by (simp_all add: close_def q5_def)
    have q5: "0 \<le> q5" unfolding q5_def by (rule rel_q_pos(3))
    have "of_int rows * q5 \<le> v * q5" using fl(2) q5 eq(2) by (intro mult_right_mono) simp_all
    then have b1: "of_int rows * q5 \<le> A" using cA(2) by simp
    have b2: "A * q5 < of_int rows + 1" using cA(1) fl(3) eq(2) by simp
    have R: "rendered_ratio cols rows fs = A * (W / H) / of_int rows"
      unfolding R0 using assms(1-3) rows by (simp add: A_def eq(1) field_simps)
    have rpos: "(0::rat) < of_int rows" using rows by simp
    have cols: "0 \<le> cols" using rc eq(1) by simp
    show ?thesis
      using rows cols fixed_cols_bound [OF Tx rpos c50 k [OF cols] b1 b2]
      by (simp add: R c50_def)
  next
    case False
    define v where "v = fmul (fmul (float_of_int rr) T) (fdiv fs cw)"
    have "calculate_ascii_dimensions W H fs True =
        (if rr = 0 then Inl ZeroDivisionError else Inr (Some (py_int v), Some rr))"
      unfolding v_def by (rule tr(3) [OF ne den G_def [symmetric] False refl])
    then have eq: "cols = py_int v" "rows = rr" "rr \<noteq> 0"
      using res by (simp_all split: if_splits)
    have rows: "1 \<le> rows" using rr eq(2,3) by simp
    have d1: "0 \<le> fmul (float_of_int rr) T" by (rule fmul_nonneg [OF frr T0])
    have d2: "0 \<le> fdiv fs cw" by (rule fdiv_nonneg [OF fs0 cw0])
    have v: "0 \<le> v" unfolding v_def by (rule fmul_nonneg [OF d1 d2])
    note fl = py_int_floor_bounds [OF v]
    define B where "B = of_int rr * (W / H) * (fs / cw)"
    have a1: "0 \<le> of_int rr * (W / H)" by (rule mult_nonneg_nonneg [OF rr' Tx0])
    have a2: "0 \<le> fs / cw" by (rule divide_nonneg_pos [OF fs0 cw])
    have c1: "close 3 (fmul (float_of_int rr) T) (of_int rr * (W / H))"
      using close_fmul [OF close_float_of_int [OF rr] cT frr rr' T0 Tx0] by (simp add: eval_nat_numeral)
    have c2: "close 1 (fdiv fs cw) (fs / cw)"
      using close_fdiv [OF close_refl close_refl fs0 fs0 cw cw] by simp
    have "close 5 v B"
      unfolding v_def B_def
      using close_fmul [OF c1 c2 d1 a1 d2 a2] by (simp add: eval_nat_numeral)
    then have cB: "B * q5 \<le> v" "v * q5 \<le> B" by (simp_all add: close_def q5_def)
    have q5: "0 \<le> q5" unfolding q5_def by (rule rel_q_pos(3))
    have "of_int cols * q5 \<le> v * q5" using fl(2) q5 eq(1) by (intro mult_right_mono) simp_all
    then have b1: "of_int cols * q5 \<le> B" using cB(2) by simp
    have b2: "B * q5 < of_int cols + 1" using cB(1) fl(3) eq(1) by simp
    have rpos: "(0::rat) < of_int rows" using rows by simp
    have rrpos: "(0::rat) < of_int rr" using rpos eq(2) by simp
    have Bpos: "0 < B"
      unfolding B_def by (intro mult_pos_pos rrpos Tx divide_pos_pos [OF assms(3) cw])
    have R: "rendered_ratio cols rows fs = of_int cols * (W / H) / B"
      unfolding R0 using assms(1-3) rows cw by (simp add: B_def eq(2) field_simps)
    have cols: "0 \<le> cols" using fl(1) eq(1) by simp
    have cpos: "(0::rat) \<le> of_int cols" using cols by simp
    show ?thesis
      using rows cols fixed_rows_bound [OF Tx rpos cpos Bpos c50 b1 b2]
      by (simp add: R c50_def)
  qed
qed

theorem calculate_ascii_dimensions_aspect_witness:
  "calculate_ascii_dimensions 800 600 12 True = Inr (Some 111, Some 49)
   \<and> (1 - 1 / 2 ^ 50) * (of_int 111 / (of_int 111 + 1)) * (800 / 600) \<le> rendered_ratio 111 49 12
   \<and> (1 - 1 / 2 ^ 50) * rendered_ratio 111 49 12 \<le> (1 + 1 / of_int 49) * (800 / 600)"
proof -
  have s1: "lit (3 / 5) = (5404319552844595 / 9007199254740992)"
    unfolding lit_def
    by (rule round_double_step [of _ 3 5 53]) (simp_all add: round_div_def)
  have s2: "fmul 12 (5404319552844595 / 9007199254740992) = (2026619832316723 / 281474976710656)"
    unfolding fmul_def
    by (rule round_double_step [of _ 16212958658533785 2251799813685248 50]) (simp_all add: round_div_def)
  have s3: "fdiv 800 (2026619832316723 / 281474976710656) = (7818749353073779 / 70368744177664)"
    unfolding fdiv_def
    by (rule round_double_step [of _ 225179981368524800 2026619832316723 46]) (simp_all add: round_div_def)
  have s4: "py_int (7818749353073779 / 70368744177664) = 111"
    by (rule py_int_step [of _ 7818749353073779 70368744177664]) simp_all
  have s5: "fdiv 600 12 = 50"
    unfolding fdiv_def
    by (rule round_double_step [of _ 50 1 47]) (simp_all add: round_div_def)
  have s6: "py_int 50 = 50"
    by (simp add: py_int_def)
  have s7: "fdiv 800 600 = (6004799503160661 / 4503599627370496)"
    unfolding fdiv_def
    by (rule round_double_step [of _ 4 3 52]) (simp_all add: round_div_def)
  have s8: "float_of_int 50 = 50"
    unfolding float_of_int_def
    by (rule round_double_step [of _ 50 1 47]) (simp_all add: round_div_def)
  have s9: "fmul 50 12 = 600"
    unfolding fmul_def
    by (rule round_double_step [of _ 600 1 43]) (simp_all add: round_div_def)
  have s10: "float_of_int 111 = 111"
    unfolding float_of_int_def
    by (rule round_double_step [of _ 111 1 46]) (simp_all add: round_div_def)
  have s11: "fmul 111 (2026619832316723 / 281474976710656) = (7029837543348633 / 8796093022208)"
    unfolding fmul_def
    by (rule round_double_step [of _ 224954801387156253 281474976710656 43]) (simp_all add: round_div_def)
  have s12: "fdiv (7029837543348633 / 8796093022208) 600 = (1499698675914375 / 1125899906842624)"
    unfolding fdiv_def
    by (rule round_double_step [of _ 2343279181116211 1759218604441600 52]) (simp_all add: round_div_def)
  have s13: "fdiv 111 (6004799503160661 / 4503599627370496) = (333 / 4)"
    unfolding fdiv_def
    by (rule round_double_step [of _ 166633186212708352 2001599834386887 46]) (simp_all add: round_div_def)
  have s14: "fdiv (2026619832316723 / 281474976710656) 12 = (5404319552844595 / 9007199254740992)"
    unfolding fdiv_def
    by (rule round_double_step [of _ 2026619832316723 3377699720527872 53]) (simp_all add: round_div_def)
  have s15: "fmul (333 / 4) (5404319552844595 / 9007199254740992) = (7029837543348633 / 140737488355328)"
    unfolding fmul_def
    by (rule round_double_step [of _ 1799638411097250135 36028797018963968 47]) (simp_all add: round_div_def)
  have s16: "py_int (7029837543348633 / 140737488355328) = 49"
    by (rule py_int_step [of _ 7029837543348633 140737488355328]) simp_all
  have a: "calculate_ascii_dimensions 800 600 12 True = Inr (Some 111, Some 49)"
    using calculate_ascii_dimensions_trace(2) [where W = "800" and H = "600" and fs = "12" and cw = "(2026619832316723 / 281474976710656)" and rc = "111" and rr = "50" and T = "(6004799503160661 / 4503599627370496)" and den = "600" and G = "(1499698675914375 / 1125899906842624)" and rows = "49"]
    by (simp add: s1 s2 s3 s4 s5 s6 s7 s8 s9 s10 s11 s12 s13 s14 s15 s16)
  have p: "(0::rat) < 800" "(0::rat) < 600" "(0::rat) < 12" by simp_all
  show ?thesis
    using a calculate_ascii_dimensions_aspect [OF p a] by blast
qed

text \<open>
  C4 as stated fails for small grids. A 14 by 23 canvas at font size 10 gets 2 columns and
  1 row; the rendered ratio is \<open>6/5\<close>, more than one and a half times the target ratio
  \<open>14/23\<close>.
\<close>

theorem calculate_ascii_dimensions_ratio_counterexample:
  "calculate_ascii_dimensions 14 23 10 True = Inr (Some 2, Some 1)
   \<and> rendered_ratio 2 1 10 = 6 / 5
   \<and> (3 / 2) * (14 / 23) < rendered_ratio 2 1 10"
proof -
  have s1: "lit (3 / 5) = (5404319552844595 / 9007199254740992)"
    unfolding lit_def
    by (rule round_double_step [of _ 3 5 53]) (simp_all add: round_div_def)
  have s2: "fmul 10 (5404319552844595 / 9007199254740992) = 6"
    unfolding fmul_def
    by (rule round_double_step [of _ 27021597764222975 4503599627370496 50]) (simp_all add: round_div_def)
  have s3: "fdiv 14 6 = (5254199565265579 / 2251799813685248)"
    unfolding fdiv_def
    by (rule round_double_step [of _ 7 3 51]) (simp_all add: round_div_def)
  have s4: "py_int (5254199565265579 / 2251799813685248) = 2"
    by (rule py_int_step [of _ 5254199565265579 2251799813685248]) simp_all
  have s5: "fdiv 23 10 = (2589569785738035 / 1125899906842624)"
    unfolding fdiv_def
    by (rule round_double_step [of _ 23 10 51]) (simp_all add: round_div_def)
  have s6: "py_int (2589569785738035 / 1125899906842624) = 2"
    by (rule py_int_step [of _ 2589569785738035 1125899906842624]) simp_all
  have s7: "fdiv 14 23 = (685330378078119 / 1125899906842624)"
    unfolding fdiv_def
    by (rule round_double_step [of _ 14 23 53]) (simp_all add: round_div_def)
  have s8: "float_of_int 2 = 2"
    unfolding float_of_int_def
    by (rule round_double_step [of _ 2 1 51]) (simp_all add: round_div_def)
  have s9: "fmul 2 10 = 20"
    unfolding fmul_def
    by (rule round_double_step [of _ 20 1 48]) (simp_all add: round_div_def)
  have s10: "fmul 2 6 = 12"
    unfolding fmul_def
    by (rule round_double_step [of _ 12 1 49]) (simp_all add: round_div_def)
  have s11: "fdiv 12 20 = (5404319552844595 / 9007199254740992)"
    unfolding fdiv_def
    by (rule round_double_step [of _ 3 5 53]) (simp_all add: round_div_def)
  have s12: "fdiv 2 (685330378078119 / 1125899906842624) = (3699385408197193 / 1125899906842624)"
    unfolding fdiv_def
    by (rule round_double_step [of _ 2251799813685248 685330378078119 51]) (simp_all add: round_div_def)
  have s13: "fdiv 6 10 = (5404319552844595 / 9007199254740992)"
    unfolding fdiv_def
    by (rule round_double_step [of _ 3 5 53]) (simp_all add: round_div_def)
  have s14: "fmul (3699385408197193 / 1125899906842624) (5404319552844595 / 9007199254740992) = (8878524979673263 / 4503599627370496)"
    unfolding fmul_def
    by (rule round_double_step [of _ 19992660895028073620253844221835 10141204801825835211973625643008 52]) (simp_all add: round_div_def)
  have s15: "py_int (8878524979673263 / 4503599627370496) = 1"
    by (rule py_int_step [of _ 8878524979673263 4503599627370496]) simp_all
  have a: "calculate_ascii_dimensions 14 23 10 True = Inr (Some 2, Some 1)"
    using calculate_ascii_dimensions_trace(2) [where W = "14" and H = "23" and fs = "10" and cw = "6" and rc = "2" and rr = "2" and T = "(685330378078119 / 1125899906842624)" and den = "20" and G = "(5404319552844595 / 9007199254740992)" and rows = "1"]
    by (simp add: s1 s2 s3 s4 s5 s6 s7 s8 s9 s10 s11 s12 s13 s14 s15)
  have c: "rendered_ratio 2 1 10 = 6 / 5"
    by (simp add: rendered_ratio_def s1 s2 s3 s4 s5 s6 s7 s8 s9 s10 s11 s12 s13 s14 s15)
  show ?thesis using a c by simp
qed

section \<open>Properties of the configuration setters\<close>

text \<open>
  C7. A configuration failure keeps the previous setting. \<open>set_char_set\<close> with a name that
  is no preset (and no custom characters) returns the current ramp and leaves the converter
  as it was; \<open>set_color_scheme\<close> with a name that is no scheme and \<open>set_output_mode\<close> with
  a name that is neither a format alias nor a mode return \<open>False\<close> and leave the handler as
  it was. The three functions are total: none of them raises.
\<close>

theorem config_failure_keeps_setting:
  "(name \<notin> fst ` set char_sets \<longrightarrow>
      set_char_set conv (Some name) None = (char_set conv, conv)
      \<and> set_char_set conv (Some name) (Some []) = (char_set conv, conv))
   \<and> (scheme \<notin> set color_scheme_names \<longrightarrow> set_color_scheme h scheme = (False, h))
   \<and> (lower mode \<notin> fst ` set format_to_mode \<union> set valid_modes \<longrightarrow>
        set_output_mode h mode = (False, h))"
proof (intro conjI impI)
  assume "name \<notin> fst ` set char_sets"
  then have "map_of char_sets name = None" by (simp add: map_of_eq_None_iff)
  then show "set_char_set conv (Some name) None = (char_set conv, conv)"
    and "set_char_set conv (Some name) (Some []) = (char_set conv, conv)"
    by (simp_all add: set_char_set_def)
next
  assume "scheme \<notin> set color_scheme_names"
  then show "set_color_scheme h scheme = (False, h)"
    by (simp add: set_color_scheme_def)
next
  assume a: "lower mode \<notin> fst ` set format_to_mode \<union> set valid_modes"
  then have "map_of format_to_mode (lower mode) = None" by (simp add: map_of_eq_None_iff)
  then show "set_output_mode h mode = (False, h)"
    using a by (simp add: set_output_mode_def)
qed

theorem config_failure_keeps_setting_witness:
  "set_char_set (init_ascii_converter None) (Some (u ''nope'')) None =
     (u ''@%#*+=-:. '', init_ascii_converter None)
   \<and> set_color_scheme init_color_handler (u ''sepia'') = (False, init_color_handler)
   \<and> set_output_mode init_color_handler (u ''PDF'') = (False, init_color_handler)"
proof -
  have 1: "u ''nope'' \<notin> fst ` set char_sets" by (simp add: char_sets_def u_def)
  have 2: "u ''sepia'' \<notin> set color_scheme_names" by (simp add: color_scheme_names_def u_def)
  have 3: "lower (u ''PDF'') \<notin> fst ` set format_to_mode \<union> set valid_modes"
    by (simp add: format_to_mode_def valid_modes_def u_def lower_def)
  show ?thesis
    using 1 2 3
      config_failure_keeps_setting [of "u ''nope''" "init_ascii_converter None" "u ''sepia''"
        init_color_handler "u ''PDF''"]
    by (simp add: init_ascii_converter_def)
qed

section \<open>Properties of the color transforms\<close>

lemma to_grayscale_trace:
  assumes "fmul (lit (299/1000)) (of_int r) = x" "fmul (lit (587/1000)) (of_int g) = y"
    and "fmul (lit (114/1000)) (of_int b) = z" "fadd (fadd x y) z = s" "py_int s = gray"
  shows "to_grayscale r g b = (gray, gray, gray)"
  unfolding to_grayscale_def Let_def assms ..

text \<open>
  C8. Grayscale applied twice should give what one application gives. At the pixel
  \<open>(0, 2, 0)\<close> it does not: the first application yields \<open>(1, 1, 1)\<close>, and on that triple
  the double-precision sum \<open>0.299 + 0.587 + 0.114\<close> falls just below 1, so truncation
  yields \<open>(0, 0, 0)\<close>.
\<close>

theorem to_grayscale_not_idempotent:
  "to_grayscale 0 2 0 = (1, 1, 1) \<and> to_grayscale 1 1 1 = (0, 0, 0)"
proof -
  have g1: "lit (299 / 1000) = (5386305154335113 / 18014398509481984)"
    unfolding lit_def
    by (rule round_double_step [of _ 299 1000 54]) (simp_all add: round_div_def)
  have g2: "lit (587 / 1000) = (2643612981266481 / 4503599627370496)"
    unfolding lit_def
    by (rule round_double_step [of _ 587 1000 53]) (simp_all add: round_div_def)
  have g3: "lit (57 / 500) = (8214565720323785 / 72057594037927936)"
    unfolding lit_def
    by (rule round_double_step [of _ 57 500 56]) (simp_all add: round_div_def)
  have g4: "fmul (5386305154335113 / 18014398509481984) 0 = 0"
    by (simp add: fmul_def)
  have g5: "fmul (2643612981266481 / 4503599627370496) 2 = (2643612981266481 / 2251799813685248)"
    unfolding fmul_def
    by (rule round_double_step [of _ 2643612981266481 2251799813685248 52]) (simp_all add: round_div_def)
  have g6: "fmul (8214565720323785 / 72057594037927936) 0 = 0"
    by (simp add: fmul_def)
  have g7: "fadd 0 (2643612981266481 / 2251799813685248) = (2643612981266481 / 2251799813685248)"
    unfolding fadd_def
    by (rule round_double_step [of _ 2643612981266481 2251799813685248 52]) (simp_all add: round_div_def)
  have g8: "fadd (2643612981266481 / 2251799813685248) 0 = (2643612981266481 / 2251799813685248)"
    unfolding fadd_def
    by (rule round_double_step [of _ 2643612981266481 2251799813685248 52]) (simp_all add: round_div_def)
  have g9: "py_int (2643612981266481 / 2251799813685248) = 1"
    by (rule py_int_step [of _ 2643612981266481 2251799813685248]) simp_all
  have g10: "fmul (5386305154335113 / 18014398509481984) 1 = (5386305154335113 / 18014398509481984)"
    unfolding fmul_def
    by (rule round_double_step [of _ 5386305154335113 18014398509481984 54]) (simp_all add: round_div_def)
  have g11: "fmul (2643612981266481 / 4503599627370496) 1 = (2643612981266481 / 4503599627370496)"
    unfolding fmul_def
    by (rule round_double_step [of _ 2643612981266481 4503599627370496 53]) (simp_all add: round_div_def)
  have g12: "fmul (8214565720323785 / 72057594037927936) 1 = (8214565720323785 / 72057594037927936)"
    unfolding fmul_def
    by (rule round_double_step [of _ 8214565720323785 72057594037927936 56]) (simp_all add: round_div_def)
  have g13: "fadd (5386305154335113 / 18014398509481984) (2643612981266481 / 4503599627370496) = (3990189269850259 / 4503599627370496)"
    unfolding fadd_def
    by (rule round_double_step [of _ 15960757079401037 18014398509481984 53]) (simp_all add: round_div_def)
  have g14: "fadd (3990189269850259 / 4503599627370496) (8214565720323785 / 72057594037927936) = (9007199254740991 / 9007199254740992)"
    unfolding fadd_def
    by (rule round_double_step [of _ 72057594037927929 72057594037927936 53]) (simp_all add: round_div_def)
  have g15: "py_int (9007199254740991 / 9007199254740992) = 0"
    by (rule py_int_step [of _ 9007199254740991 9007199254740992]) simp_all
  have a: "to_grayscale 0 2 0 = (1, 1, 1)"
    by (rule to_grayscale_trace [where x = "0" and y = "(2643612981266481 / 2251799813685248)" and z = "0" and s = "(2643612981266481 / 2251799813685248)"])
      (simp_all add: g1 g2 g3 g4 g5 g6 g7 g8 g9 g10 g11 g12 g13 g14 g15)
  have b: "to_grayscale 1 1 1 = (0, 0, 0)"
    by (rule to_grayscale_trace [where x = "(5386305154335113 / 18014398509481984)" and y = "(2643612981266481 / 4503599627370496)" and z = "(8214565720323785 / 72057594037927936)" and s = "(9007199254740991 / 9007199254740992)"])
      (simp_all add: g1 g2 g3 g4 g5 g6 g7 g8 g9 g10 g11 g12 g13 g14 g15)
  show ?thesis using a b by simp
qed

section \<open>Properties of the renderers\<close>

lemma join_empty_sep: "join [] xs = concat xs"
  by (induction "[] :: pystr" xs rule: join.induct) simp_all

lemma join_Cons: "join sep (x # xs) = (if xs = [] then x else x @ sep @ join sep xs)"
  by (cases xs) simp_all

text \<open>
  C9 (as the code has it). \<open>to_string\<close> joins the row strings with a newline between
  consecutive rows and returns the empty string for the empty grid; absent input
  (\<open>None\<close>) raises \<open>TypeError\<close>.
\<close>

theorem to_string_joins_rows:
  "to_string (Some (map TextRow rs)) = Inr (join [10] rs)
   \<and> to_string (Some []) = Inr []
   \<and> to_string (Some (TextRow r # map TextRow (r' # rs))) =
       Inr (r @ [10] @ join [10] (r' # rs))
   \<and> to_string None = Inl TypeError"
  by (simp add: to_string_def str_join_def list_all_iff comp_def)

theorem to_string_joins_rows_witness:
  "to_string (Some (map TextRow [u ''@@'', u ''..''])) = Inr (u ''@@'' @ [10] @ u ''..'')
   \<and> to_string None = Inl TypeError"
  using to_string_joins_rows [of "[u ''@@'', u ''..'']"] by simp

text \<open>
  C9 as stated fails: for absent input the text renderer does not return the empty string.
\<close>

theorem to_string_None_counterexample: "to_string None \<noteq> Inr []"
  by (simp add: to_string_def str_join_def)

text \<open>
  C10. \<open>to_html\<close> places the rows inside the single \<open>pre\<close> element one after the other with
  nothing between them; a grid of two or more rows yields the same document as the single
  row made of their concatenation, whereas \<open>to_string\<close> keeps a newline between rows.
\<close>

theorem to_html_concatenates_rows:
  "to_html (Some (map TextRow rs)) title css =
     Inr (html_head title (if css = [] then default_css else css) @ concat rs @ html_tail)
   \<and> to_html (Some (map TextRow (r # r' # rs))) title css =
       to_html (Some [TextRow (concat (r # r' # rs))]) title css
   \<and> to_string (Some (map TextRow (r # r' # rs))) =
       Inr (r @ [10] @ join [10] (r' # rs))"
  by (simp add: to_html_def to_string_def str_join_def list_all_iff comp_def join_empty_sep Let_def)

theorem to_html_concatenates_rows_witness:
  "to_html (Some (map TextRow [u ''ab'', u ''cd''])) (u ''t'') [] =
     to_html (Some [TextRow (u ''abcd'')]) (u ''t'') []
   \<and> to_string (Some (map TextRow [u ''ab'', u ''cd''])) = Inr (u ''ab'' @ [10] @ u ''cd'')"
  using to_html_concatenates_rows [of "[]" "u ''t''" "[]" "u ''ab''" "u ''cd''"]
  by (simp add: u_def)

end
